theory Spec2Isabelle
  imports Main "HOL-Library.AList"
begin

section \<open>The event broker of challenge.mjs\<close>

text \<open>
  The module keeps three JavaScript \<open>Map\<close>s (\<open>events\<close>, \<open>groupConsumption\<close>,
  \<open>waiters\<close>), exports the asynchronous functions \<open>push\<close> and \<open>blockingGet\<close>, and
  installs a \<open>setInterval\<close> callback that drops expired events. The embedding passes
  the module state explicitly. What the JavaScript runtime contributes (the wall clock
  read by \<open>Date.now()\<close>, the promises created by \<open>blockingGet\<close>, the pending
  \<open>setTimeout\<close> callbacks) is part of the state as well, and every callback the event
  loop can run is an action of a step function.
\<close>

subsection \<open>JavaScript values\<close>

text \<open>
  The payload \<open>data\<close> of \<open>push\<close> is an arbitrary JavaScript value. Numbers are kept to
  the integers and \<open>NaN\<close>, which is enough to tell the falsy numbers from the others.
\<close>

datatype jsval =
    JUndefined
  | JNull
  | JBool bool
  | JNum int
  | JNaN
  | JStr string
  | JObj "(string \<times> jsval) list"

text \<open>ToBoolean, as used by \<open>data || {}\<close>.\<close>

fun truthy :: "jsval \<Rightarrow> bool" where
  "truthy JUndefined = False"
| "truthy JNull = False"
| "truthy (JBool b) = b"
| "truthy (JNum n) = (n \<noteq> 0)"
| "truthy JNaN = False"
| "truthy (JStr s) = (s \<noteq> [])"
| "truthy (JObj fields) = True"

text \<open>
  A string argument that may be absent: \<open>None\<close> is \<open>undefined\<close>. \<open>missing\<close> is the
  test \<open>!key\<close> on such an argument.
\<close>

fun missing :: "string option \<Rightarrow> bool" where
  "missing None = True"
| "missing (Some k) = (k = [])"

subsection \<open>Constants\<close>

definition EVENT_EXPIRY_MS :: int where
  "EVENT_EXPIRY_MS = 2 * 60 * 1000"

definition BLOCKING_TIMEOUT_MS :: int where
  "BLOCKING_TIMEOUT_MS = 30 * 1000"

subsection \<open>Decimal rendering of \<open>Date.now()\<close> inside the event id\<close>

fun show_nat :: "nat \<Rightarrow> string" where
  "show_nat n =
     (if n < 10 then [''0123456789'' ! n]
      else show_nat (n div 10) @ [''0123456789'' ! (n mod 10)])"

declare show_nat.simps [simp del]

definition show_int :: "int \<Rightarrow> string" where
  "show_int i = (if i < 0 then ''-'' @ show_nat (nat (- i)) else show_nat (nat i))"

subsection \<open>Events and the module state\<close>

record event =
  id_ev :: string
  data :: jsval
  timestamp :: int

text \<open>\<open>Error msg\<close> is the object \<open>new Error(msg)\<close>; \<open>error_name\<close> is its \<open>name\<close>
  property.\<close>

datatype error = Error string

fun error_name :: "error \<Rightarrow> string" where
  "error_name (Error message) = ''Error''"

text \<open>
  A JavaScript \<open>Map\<close> is an association list in insertion order:
  \<open>has\<close>/\<open>get\<close> look a key up, \<open>set\<close> replaces the value of a present key in place and
  appends an absent one, \<open>delete\<close> removes the key.
\<close>

definition map_has :: "('k \<times> 'v) list \<Rightarrow> 'k \<Rightarrow> bool" where
  "map_has m k = (map_of m k \<noteq> None)"

definition map_get :: "('k \<times> 'v) list \<Rightarrow> 'k \<Rightarrow> 'v option" where
  "map_get m k = map_of m k"

definition map_set :: "'k \<Rightarrow> 'v \<Rightarrow> ('k \<times> 'v) list \<Rightarrow> ('k \<times> 'v) list" where
  "map_set k v m = AList.update k v m"

definition map_delete :: "'k \<Rightarrow> ('k \<times> 'v) list \<Rightarrow> ('k \<times> 'v) list" where
  "map_delete k m = AList.delete k m"

text \<open>
  The first three fields are the module's \<open>Map\<close>s. A \<open>resolve\<close> function stored in
  \<open>waiters\<close> is identified with the number of the promise it settles. The other fields
  are the runtime: \<open>clock\<close> is what \<open>Date.now()\<close> returns and what timers are measured
  against, \<open>nextPromise\<close> numbers the promises, \<open>fulfilled\<close> holds the settled ones,
  \<open>timers\<close> the pending \<open>setTimeout(resolve, BLOCKING_TIMEOUT_MS)\<close> callbacks with
  their due time, \<open>suspended\<close> the \<open>blockingGet\<close> calls stopped at their \<open>await\<close>
  (the awaited promise with the call's \<open>key\<close> and \<open>groupId\<close>), and \<open>resolveLog\<close>
  records every invocation of a \<open>resolve\<close> function, in order.
\<close>

record state =
  events :: "(string \<times> event list) list"
  groupConsumption :: "(string \<times> string set) list"
  waiters :: "(string \<times> nat list) list"
  clock :: int
  nextPromise :: nat
  fulfilled :: "nat set"
  timers :: "(nat \<times> int) list"
  suspended :: "(nat \<times> string \<times> string) list"
  resolveLog :: "nat list"

definition init :: state where
  "init = \<lparr> events = [], groupConsumption = [], waiters = [], clock = 0,
            nextPromise = 0, fulfilled = {}, timers = [], suspended = [],
            resolveLog = [] \<rparr>"

subsection \<open>The retention sweep (the \<open>setInterval\<close> callback)\<close>

definition unexpired :: "int \<Rightarrow> event \<Rightarrow> bool" where
  "unexpired now e = (now - timestamp e < EVENT_EXPIRY_MS)"

text \<open>
  The loop \<open>for (const [key, evts] of events.entries())\<close>. Its body only replaces the
  value of the entry being visited or deletes that entry, so the entries still to visit
  are those of the map as it was when the loop started; the second argument is that
  list, the third the map being updated.
\<close>

fun sweep_loop :: "int \<Rightarrow> (string \<times> event list) list \<Rightarrow> (string \<times> event list) list
    \<Rightarrow> (string \<times> event list) list" where
  "sweep_loop now [] m = m"
| "sweep_loop now ((key, evts) # rest) m =
     (let valid = filter (unexpired now) evts
      in sweep_loop now rest
           (if length valid > 0 then map_set key valid m else map_delete key m))"

definition cleanup :: "state \<Rightarrow> state" where
  "cleanup s = (let now = clock s in s\<lparr> events := sweep_loop now (events s) (events s) \<rparr>)"

subsection \<open>\<open>push\<close>\<close>

text \<open>Calling a \<open>resolve\<close> function settles its promise; a second call has no effect
  on the promise.\<close>

definition resolve :: "nat \<Rightarrow> state \<Rightarrow> state" where
  "resolve p s = s\<lparr> fulfilled := insert p (fulfilled s), resolveLog := resolveLog s @ [p] \<rparr>"

definition newEvent :: "string \<Rightarrow> jsval \<Rightarrow> string \<Rightarrow> state \<Rightarrow> event" where
  "newEvent key d rnd s =
     \<lparr> id_ev = key @ ''-'' @ show_int (clock s) @ ''-'' @ rnd,
       data = (if truthy d then d else JObj []),
       timestamp = clock s \<rparr>"

text \<open>
  \<open>push key d rnd s\<close>: \<open>rnd\<close> is the string \<open>Math.random().toString(36).slice(2)\<close>
  drawn by the call. The body runs without interruption, so both \<open>Date.now()\<close> calls
  read the same \<open>clock\<close>. \<open>Inl\<close> is the error thrown by the body.
\<close>

definition push :: "string option \<Rightarrow> jsval \<Rightarrow> string \<Rightarrow> state \<Rightarrow> error + state" where
  "push key d rnd s =
     (case key of
        None \<Rightarrow> Inl (Error ''Missing key'')
      | Some k \<Rightarrow>
          if k = [] then Inl (Error ''Missing key'')
          else
            let ev1 = (if \<not> map_has (events s) k then map_set k [] (events s) else events s);
                ev2 = map_set k ((case map_get ev1 k of Some evts \<Rightarrow> evts | None \<Rightarrow> [])
                                   @ [newEvent k d rnd s]) ev1;
                s1 = s\<lparr> events := ev2 \<rparr>
            in Inr (if map_has (waiters s1) k
                    then (let ws = (case map_get (waiters s1) k of Some ws \<Rightarrow> ws | None \<Rightarrow> []);
                              s2 = foldl (\<lambda>st p. resolve p st) s1 ws
                          in s2\<lparr> waiters := map_delete k (waiters s2) \<rparr>)
                    else s1))"

text \<open>
  \<open>push\<close> is declared \<open>async\<close>. The call expression \<open>push(key, data)\<close> therefore never
  throws: it completes normally with a promise, fulfilled (with \<open>undefined\<close>) when the
  body runs to its end and rejected with the error when the body throws.
\<close>

datatype promise = Fulfilled | RejectedWith error

datatype completion = is_Throw: Throw error | Normal promise

definition push_call :: "string option \<Rightarrow> jsval \<Rightarrow> string \<Rightarrow> state \<Rightarrow> state \<times> completion" where
  "push_call key d rnd s =
     (case push key d rnd s of
        Inl e \<Rightarrow> (s, Normal (RejectedWith e))
      | Inr s' \<Rightarrow> (s', Normal Fulfilled))"

subsection \<open>\<open>blockingGet\<close>\<close>

definition groupKey :: "string \<Rightarrow> string \<Rightarrow> string" where
  "groupKey key groupId = key @ '':'' @ groupId"

definition getUnconsumed :: "string \<Rightarrow> string \<Rightarrow> state \<Rightarrow> event list" where
  "getUnconsumed key gk s =
     (let allEvents = (case map_get (events s) key of Some evts \<Rightarrow> evts | None \<Rightarrow> []);
          consumed = (case map_get (groupConsumption s) gk of Some c \<Rightarrow> c | None \<Rightarrow> {})
      in filter (\<lambda>e. id_ev e \<notin> consumed) allEvents)"

definition markConsumed :: "string \<Rightarrow> event list \<Rightarrow> state \<Rightarrow> state" where
  "markConsumed gk eventsArr s =
     (let gc = (if \<not> map_has (groupConsumption s) gk
                then map_set gk {} (groupConsumption s) else groupConsumption s);
          consumed = (case map_get gc gk of Some c \<Rightarrow> c | None \<Rightarrow> {})
      in s\<lparr> groupConsumption :=
              map_set gk (foldl (\<lambda>c e. insert (id_ev e) c) consumed eventsArr) gc \<rparr>)"

text \<open>What a call of \<open>blockingGet\<close> does before it returns control: it returns a list,
  or stops at \<open>await\<close> on the promise it created.\<close>

datatype outcome = Return "event list" | Await nat

text \<open>The executor of \<open>new Promise\<close>: store \<open>resolve\<close> under the key, start the timer.\<close>

definition register :: "string \<Rightarrow> string \<Rightarrow> state \<Rightarrow> state \<times> nat" where
  "register key groupId s =
     (let p = nextPromise s;
          w1 = (if \<not> map_has (waiters s) key then map_set key [] (waiters s) else waiters s);
          w2 = map_set key ((case map_get w1 key of Some ws \<Rightarrow> ws | None \<Rightarrow> []) @ [p]) w1
      in (s\<lparr> waiters := w2,
              timers := timers s @ [(p, clock s + BLOCKING_TIMEOUT_MS)],
              nextPromise := Suc p,
              suspended := suspended s @ [(p, key, groupId)] \<rparr>, p))"

text \<open>The two places where the unconsumed events are computed, marked and returned.\<close>

definition check :: "string \<Rightarrow> string \<Rightarrow> state \<Rightarrow> (state \<times> event list) option" where
  "check key groupId s =
     (let unconsumed = getUnconsumed key (groupKey key groupId) s
      in if length unconsumed > 0
         then Some (markConsumed (groupKey key groupId) unconsumed s, unconsumed)
         else None)"

fun blockingGet :: "string option \<Rightarrow> string option \<Rightarrow> state \<Rightarrow> state \<times> outcome" where
  "blockingGet (Some key) (Some groupId) s =
     (if key = [] \<or> groupId = [] then (s, Return [])
      else case check key groupId s of
             Some (s', unconsumed) \<Rightarrow> (s', Return unconsumed)
           | None \<Rightarrow> (let (s', p) = register key groupId s in (s', Await p)))"
| "blockingGet key groupId s = (s, Return [])"

text \<open>
  The rest of a suspended call, run by the event loop once the awaited promise is
  settled. \<open>None\<close>: no call is suspended on \<open>p\<close>, or \<open>p\<close> is not settled yet.
\<close>

definition resume :: "nat \<Rightarrow> state \<Rightarrow> state \<times> (string \<times> string \<times> event list) option" where
  "resume p s =
     (case map_of (suspended s) p of
        None \<Rightarrow> (s, None)
      | Some (key, groupId) \<Rightarrow>
          if p \<notin> fulfilled s then (s, None)
          else
            let s1 = s\<lparr> suspended := AList.delete p (suspended s) \<rparr>
            in (case check key groupId s1 of
                  Some (s', unconsumed) \<Rightarrow> (s', Some (key, groupId, unconsumed))
                | None \<Rightarrow> (s1, Some (key, groupId, []))))"

text \<open>The callback of \<open>setTimeout(resolve, BLOCKING_TIMEOUT_MS)\<close>, once it is due.\<close>

definition timeout :: "nat \<Rightarrow> state \<Rightarrow> state" where
  "timeout p s =
     (case map_of (timers s) p of
        None \<Rightarrow> s
      | Some due \<Rightarrow>
          if clock s < due then s
          else resolve p (s\<lparr> timers := AList.delete p (timers s) \<rparr>))"

subsection \<open>The event loop\<close>

datatype action =
    Push "string option" jsval string
  | BlockingGet "string option" "string option"
  | Resume nat
  | Timeout nat
  | Cleanup
  | Tick nat

datatype observation =
    Rejected error
  | Resolved
  | Returned "string option" "string option" "event list"
  | Awaiting nat
  | Idle

fun step :: "action \<Rightarrow> state \<Rightarrow> state \<times> observation" where
  "step (Push key d rnd) s =
     (case push key d rnd s of Inl e \<Rightarrow> (s, Rejected e) | Inr s' \<Rightarrow> (s', Resolved))"
| "step (BlockingGet key groupId) s =
     (case blockingGet key groupId s of
        (s', Return evts) \<Rightarrow> (s', Returned key groupId evts)
      | (s', Await p) \<Rightarrow> (s', Awaiting p))"
| "step (Resume p) s =
     (case resume p s of
        (s', None) \<Rightarrow> (s', Idle)
      | (s', Some (key, groupId, evts)) \<Rightarrow> (s', Returned (Some key) (Some groupId) evts))"
| "step (Timeout p) s = (timeout p s, Idle)"
| "step Cleanup s = (cleanup s, Idle)"
| "step (Tick ms) s = (s\<lparr> clock := clock s + int ms \<rparr>, Idle)"

fun run :: "action list \<Rightarrow> state \<Rightarrow> state \<times> observation list" where
  "run [] s = (s, [])"
| "run (a # as) s =
     (let (s1, out) = step a s; (s2, outs) = run as s1 in (s2, out # outs))"

subsection \<open>Reading the stores\<close>

text \<open>The set of ids recorded under a consumption key, and the events stored under a
  topic key, with the defaults \<open>getUnconsumed\<close> uses for an absent entry.\<close>

definition consumedBy :: "state \<Rightarrow> string \<Rightarrow> string set" where
  "consumedBy s gk = (case map_get (groupConsumption s) gk of Some c \<Rightarrow> c | None \<Rightarrow> {})"

definition stored :: "state \<Rightarrow> string \<Rightarrow> event list" where
  "stored s key = (case map_get (events s) key of Some evts \<Rightarrow> evts | None \<Rightarrow> [])"

text \<open>The waiters registered under a key.\<close>

definition registered :: "state \<Rightarrow> string \<Rightarrow> nat list" where
  "registered s key = (case map_get (waiters s) key of Some ws \<Rightarrow> ws | None \<Rightarrow> [])"

subsection \<open>The retention sweep, as the specification words it\<close>

text \<open>Every key keeps exactly its events younger than 120000 ms, in their order, and a
  key with no such event has no entry.\<close>

definition pruneExpired_spec :: "int \<Rightarrow> (string \<times> event list) list \<Rightarrow> (string \<times> event list) list" where
  "pruneExpired_spec now m =
     filter (\<lambda>(key, evts). evts \<noteq> [])
       (map (\<lambda>(key, evts). (key, filter (\<lambda>e. now - timestamp e < 120000) evts)) m)"

subsection \<open>Invariants\<close>

text \<open>All events in the store, whatever their key.\<close>

definition allEvents :: "state \<Rightarrow> event list" where
  "allEvents s = concat (map snd (events s))"

text \<open>Every \<open>resolve\<close> function in the registry belongs to a promise already created
  and occurs once in the list of its key.\<close>

definition waiters_ok :: "state \<Rightarrow> bool" where
  "waiters_ok s \<longleftrightarrow>
     (\<forall>(key, ws) \<in> set (waiters s). distinct ws \<and> (\<forall>p \<in> set ws. p < nextPromise s))"

text \<open>The clock has reached \<open>b\<close> and every stored event was younger than 120000 ms
  at time \<open>b\<close>.\<close>

definition fresh_since :: "int \<Rightarrow> state \<Rightarrow> bool" where
  "fresh_since b s \<longleftrightarrow> b \<le> clock s \<and> (\<forall>e \<in> set (allEvents s). b - timestamp e < 120000)"

section \<open>Basic facts\<close>

lemma foldl_insert_ids: "foldl (\<lambda>c e. insert (id_ev e) c) c es = c \<union> id_ev ` set es"
  by (induction es arbitrary: c) auto

lemma getUnconsumed_eq:
  "getUnconsumed key gk s = filter (\<lambda>e. id_ev e \<notin> consumedBy s gk) (stored s key)"
  by (simp add: getUnconsumed_def consumedBy_def stored_def)

lemma consumedBy_markConsumed:
  "consumedBy (markConsumed gk es s) gk' =
     (if gk' = gk then consumedBy s gk \<union> id_ev ` set es else consumedBy s gk')"
  by (auto simp: consumedBy_def markConsumed_def map_get_def map_set_def map_has_def
      update_conv' foldl_insert_ids Let_def split: option.splits)

lemma markConsumed_frame:
  "events (markConsumed gk es s) = events s"
  "waiters (markConsumed gk es s) = waiters s"
  "clock (markConsumed gk es s) = clock s"
  "nextPromise (markConsumed gk es s) = nextPromise s"
  "fulfilled (markConsumed gk es s) = fulfilled s"
  "timers (markConsumed gk es s) = timers s"
  "suspended (markConsumed gk es s) = suspended s"
  "resolveLog (markConsumed gk es s) = resolveLog s"
  by (simp_all add: markConsumed_def Let_def)

lemma stored_markConsumed: "stored (markConsumed gk es s) key = stored s key"
  by (simp add: stored_def markConsumed_frame)

lemma check_Some:
  "check key groupId s = Some (s', r) \<longleftrightarrow>
     r = getUnconsumed key (groupKey key groupId) s \<and> r \<noteq> [] \<and>
     s' = markConsumed (groupKey key groupId) r s"
  by (auto simp: check_def Let_def)

lemma check_None:
  "check key groupId s = None \<longleftrightarrow> getUnconsumed key (groupKey key groupId) s = []"
  by (auto simp: check_def Let_def)

section \<open>Malformed calls\<close>

text \<open>
  C4, as the code has it. \<open>push\<close> is an \<open>async\<close> function, so a call with an empty or
  absent \<open>key\<close> does not throw: it completes normally and returns a promise that is
  already rejected. The rejection carries a plain \<open>Error\<close> (its name is \<open>Error\<close>) with
  the message \<open>Missing key\<close>. The body stops at its first statement, so the whole state,
  and with it the three stores, is as it was before the call.
\<close>

theorem push_missing_key:
  "missing key \<Longrightarrow>
     push_call key d rnd s = (s, Normal (RejectedWith (Error ''Missing key''))) \<and>
     error_name (Error ''Missing key'') = ''Error'' \<and>
     push key d rnd s = Inl (Error ''Missing key'') \<and>
     step (Push key d rnd) s = (s, Rejected (Error ''Missing key''))"
  by (cases key) (simp_all add: push_def push_call_def)

theorem push_missing_key_witness:
  "missing (Some '''') \<and> missing None \<and>
   push_call (Some '''') (JNum 1) ''r'' init =
     (init, Normal (RejectedWith (Error ''Missing key''))) \<and>
   push_call None (JNum 1) ''r'' init =
     (init, Normal (RejectedWith (Error ''Missing key''))) \<and>
   push (Some '''') (JNum 1) ''r'' init = Inl (Error ''Missing key'') \<and>
   step (Push (Some '''') (JNum 1) ''r'') init = (init, Rejected (Error ''Missing key'')) \<and>
   step (Push None (JNum 1) ''r'') init = (init, Rejected (Error ''Missing key''))"
  using push_missing_key [of "Some ''''" "JNum 1" "''r''" init]
        push_missing_key [of None "JNum 1" "''r''" init]
  by simp

text \<open>
  C4, as stated, fails: the call \<open>push("", 1)\<close> is not a synchronous failure (its
  completion is not a throw), and the error in the rejected promise is not named
  \<open>InvalidArgument\<close>.
\<close>

theorem push_missing_key_counterexample:
  "\<not> is_Throw (snd (push_call (Some '''') (JNum 1) ''r'' init)) \<and>
   snd (push_call (Some '''') (JNum 1) ''r'' init) = Normal (RejectedWith (Error ''Missing key'')) \<and>
   error_name (Error ''Missing key'') \<noteq> ''InvalidArgument''"
  by (simp add: push_call_def push_def)

text \<open>
  C7. When \<open>key\<close> or \<open>groupId\<close> is empty or absent, \<open>blockingGet\<close> returns the
  empty list at once: no error, no waiter registered, the state unchanged.
\<close>

theorem blockingGet_missing_argument:
  "missing key \<or> missing groupId \<Longrightarrow>
     blockingGet key groupId s = (s, Return []) \<and>
     step (BlockingGet key groupId) s = (s, Returned key groupId [])"
  by (cases key; cases groupId) auto

theorem blockingGet_missing_argument_witness:
  "(missing (Some ''k'') \<or> missing (Some '''')) \<and>
   blockingGet (Some ''k'') (Some '''') init = (init, Return []) \<and>
   step (BlockingGet (Some ''k'') (Some '''')) init = (init, Returned (Some ''k'') (Some '''') [])"
  using blockingGet_missing_argument [of "Some ''k''" "Some ''''" init]
  by simp

section \<open>The operations in closed form\<close>

text \<open>What \<open>push\<close>, \<open>blockingGet\<close> and the resumption of a suspended call do, case by
  case, and which fields they leave alone.\<close>

lemma foldl_resolve:
  "foldl (\<lambda>st p. resolve p st) s ws =
     s\<lparr> fulfilled := fulfilled s \<union> set ws, resolveLog := resolveLog s @ ws \<rparr>"
  by (induction ws arbitrary: s) (simp_all add: resolve_def)

lemma push_Inr:
  "k \<noteq> [] \<Longrightarrow> push (Some k) d rnd s =
     Inr (s\<lparr> events := map_set k (stored s k @ [newEvent k d rnd s]) (events s),
              waiters := map_delete k (waiters s),
              fulfilled := fulfilled s \<union> set (registered s k),
              resolveLog := resolveLog s @ registered s k \<rparr>)"
  apply (simp add: push_def Let_def foldl_resolve stored_def registered_def map_has_def map_get_def
      map_set_def map_delete_def update_conv' split: option.splits)
  apply (auto simp: map_of_eq_None_iff)
  done

lemma push_groupConsumption:
  assumes that: "push key d rnd s = Inr s'"
  shows "groupConsumption s' = groupConsumption s"
proof (cases key)
  case None
  then show ?thesis using that by (simp add: push_def)
next
  case (Some k)
  show ?thesis
  proof (cases "k = []")
    case True
    with Some that show ?thesis by (simp add: push_def)
  next
    case False
    with Some that show ?thesis by (auto simp: push_Inr)
  qed
qed

lemma consumedBy_cong:
  "groupConsumption s' = groupConsumption s \<Longrightarrow> consumedBy s' gk = consumedBy s gk"
  by (simp add: consumedBy_def)

lemma register_groupConsumption:
  "register key groupId s = (s', p) \<Longrightarrow> groupConsumption s' = groupConsumption s"
  by (auto simp: register_def Let_def)

lemma timeout_groupConsumption: "groupConsumption (timeout p s) = groupConsumption s"
  by (simp add: timeout_def resolve_def split: option.splits)

lemma cleanup_groupConsumption: "groupConsumption (cleanup s) = groupConsumption s"
  by (simp add: cleanup_def)

lemma blockingGet_cases:
  assumes "blockingGet key groupId s = (s', out)"
  obtains
    (malformed) "missing key \<or> missing groupId" "s' = s" "out = Return []"
  | (found) k g where "key = Some k" "groupId = Some g" "k \<noteq> []" "g \<noteq> []"
      "getUnconsumed k (groupKey k g) s \<noteq> []"
      "out = Return (getUnconsumed k (groupKey k g) s)"
      "s' = markConsumed (groupKey k g) (getUnconsumed k (groupKey k g) s) s"
  | (wait) k g where "key = Some k" "groupId = Some g" "k \<noteq> []" "g \<noteq> []"
      "getUnconsumed k (groupKey k g) s = []"
      "out = Await (nextPromise s)" "s' = fst (register k g s)"
proof (cases "missing key \<or> missing groupId")
  case True
  with assms show ?thesis
    by (cases key; cases groupId) (auto intro: malformed)
next
  case False
  then obtain k g where kg: "key = Some k" "groupId = Some g" "k \<noteq> []" "g \<noteq> []"
    by (cases key; cases groupId) auto
  show ?thesis
  proof (cases "check k g s")
    case None
    with assms kg have "out = Await (nextPromise s)" "s' = fst (register k g s)"
      by (auto simp: register_def Let_def)
    with None kg show ?thesis by (auto simp: check_None intro: wait)
  next
    case (Some a)
    then obtain s1 r where "check k g s = Some (s1, r)" by (cases a) auto
    with assms kg show ?thesis
      by (auto simp: check_Some intro: found)
  qed
qed

lemma resume_cases:
  assumes "resume p s = (s', out)"
  obtains
    (idle) "s' = s" "out = None"
  | (found) k g where "map_of (suspended s) p = Some (k, g)" "p \<in> fulfilled s"
      "getUnconsumed k (groupKey k g) s \<noteq> []"
      "out = Some (k, g, getUnconsumed k (groupKey k g) s)"
      "s' = markConsumed (groupKey k g) (getUnconsumed k (groupKey k g) s)
              (s\<lparr> suspended := AList.delete p (suspended s) \<rparr>)"
  | (empty) k g where "map_of (suspended s) p = Some (k, g)" "p \<in> fulfilled s"
      "getUnconsumed k (groupKey k g) s = []"
      "out = Some (k, g, [])"
      "s' = s\<lparr> suspended := AList.delete p (suspended s) \<rparr>"
proof (cases "map_of (suspended s) p")
  case None
  with assms show ?thesis by (auto simp: resume_def intro: idle)
next
  case (Some kg)
  obtain k g where kg: "kg = (k, g)" by (cases kg)
  show ?thesis
  proof (cases "p \<in> fulfilled s")
    case False
    with assms Some kg show ?thesis by (auto simp: resume_def intro: idle)
  next
    case True
    let ?s1 = "s\<lparr> suspended := AList.delete p (suspended s) \<rparr>"
    have gu: "getUnconsumed k (groupKey k g) ?s1 = getUnconsumed k (groupKey k g) s"
      by (simp add: getUnconsumed_def)
    show ?thesis
    proof (cases "check k g ?s1")
      case None
      with assms Some kg True gu show ?thesis
        by (auto simp: resume_def Let_def check_None intro: empty)
    next
      case (Some a)
      then obtain s2 r where "check k g ?s1 = Some (s2, r)" by (cases a) auto
      with assms \<open>map_of (suspended s) p = Some kg\<close> kg True gu show ?thesis
        by (auto simp: resume_def Let_def check_Some intro: found)
    qed
  qed
qed

section \<open>No duplicate delivery\<close>

lemma step_consumed_mono: "consumedBy s gk \<subseteq> consumedBy (fst (step a s)) gk"
proof (cases a)
  case (Push key d rnd)
  then show ?thesis
    by (auto simp: consumedBy_cong [OF push_groupConsumption] split: sum.splits)
next
  case (BlockingGet key groupId)
  obtain s' out where bg: "blockingGet key groupId s = (s', out)" by force
  then have "consumedBy s gk \<subseteq> consumedBy s' gk"
  proof (cases rule: blockingGet_cases)
    case malformed
    then show ?thesis by simp
  next
    case (found k g)
    then show ?thesis by (auto simp: consumedBy_markConsumed)
  next
    case (wait k g)
    then show ?thesis by (simp add: register_def Let_def consumedBy_def)
  qed
  with bg BlockingGet show ?thesis by (auto split: outcome.splits)
next
  case (Resume p)
  obtain s' out where r: "resume p s = (s', out)" by force
  then have "consumedBy s gk \<subseteq> consumedBy s' gk"
  proof (cases rule: resume_cases)
    case idle
    then show ?thesis by simp
  next
    case (found k g)
    have "consumedBy (s\<lparr>suspended := AList.delete p (suspended s)\<rparr>) gk = consumedBy s gk"
      by (simp add: consumedBy_def)
    with found show ?thesis by (auto simp: consumedBy_markConsumed)
  next
    case (empty k g)
    then show ?thesis by (simp add: consumedBy_def)
  qed
  with r Resume show ?thesis by (auto split: option.splits)
next
  case (Timeout p)
  then show ?thesis by (simp add: consumedBy_cong [OF timeout_groupConsumption])
next
  case Cleanup
  then show ?thesis by (simp add: consumedBy_cong [OF cleanup_groupConsumption])
next
  case (Tick ms)
  then show ?thesis by (simp add: consumedBy_def)
qed

lemma step_Returned:
  assumes "step a s = (s', Returned key groupId r)" and "e \<in> set r"
  shows "\<exists>k g. key = Some k \<and> groupId = Some g \<and>
           id_ev e \<notin> consumedBy s (groupKey k g) \<and> id_ev e \<in> consumedBy s' (groupKey k g)"
proof (cases a)
  case (Push key' d rnd)
  with assms show ?thesis by (auto split: sum.splits)
next
  case (BlockingGet key' groupId')
  obtain s1 out where bg: "blockingGet key' groupId' s = (s1, out)" by force
  from bg show ?thesis
  proof (cases rule: blockingGet_cases)
    case malformed
    with assms bg BlockingGet show ?thesis by auto
  next
    case (found k g)
    with assms bg BlockingGet show ?thesis
      by (auto simp: getUnconsumed_eq consumedBy_markConsumed)
  next
    case (wait k g)
    with assms bg BlockingGet show ?thesis by auto
  qed
next
  case (Resume p)
  obtain s1 out where r: "resume p s = (s1, out)" by force
  from r show ?thesis
  proof (cases rule: resume_cases)
    case idle
    with assms r Resume show ?thesis by auto
  next
    case (found k g)
    have "consumedBy (s\<lparr>suspended := AList.delete p (suspended s)\<rparr>) (groupKey k g)
            = consumedBy s (groupKey k g)"
      by (simp add: consumedBy_def)
    with found assms r Resume show ?thesis
      by (auto simp: getUnconsumed_eq consumedBy_markConsumed)
  next
    case (empty k g)
    with assms r Resume show ?thesis by auto
  qed
next
  case (Timeout p)
  with assms show ?thesis by simp
next
  case Cleanup
  with assms show ?thesis by simp
next
  case (Tick ms)
  with assms show ?thesis by simp
qed

lemma fst_run_Cons: "fst (run (a # as) s) = fst (run as (fst (step a s)))"
  by (simp add: Let_def split_beta)

lemma snd_run_Cons: "snd (run (a # as) s) = snd (step a s) # snd (run as (fst (step a s)))"
  by (simp add: Let_def split_beta)

lemma run_ConsE:
  assumes "run (a # as) s = (s', outs)"
  obtains outs' where "outs = snd (step a s) # outs'" "run as (fst (step a s)) = (s', outs')"
  using assms by (auto simp: Let_def split: prod.splits)

lemma run_consumed_mono: "consumedBy s gk \<subseteq> consumedBy (fst (run as s)) gk"
proof (induction as arbitrary: s)
  case Nil
  show ?case by simp
next
  case (Cons a as)
  have "consumedBy s gk \<subseteq> consumedBy (fst (step a s)) gk" by (rule step_consumed_mono)
  also have "\<dots> \<subseteq> consumedBy (fst (run as (fst (step a s)))) gk" by (rule Cons.IH)
  finally show ?case by (simp only: fst_run_Cons)
qed

lemma run_length: "length (snd (run as s)) = length as"
  by (induction as arbitrary: s) (simp_all add: Let_def split_beta)

lemma run_Returned_fresh:
  assumes "run as s = (s', outs)" and "Returned (Some k) (Some g) r \<in> set outs"
    and "e \<in> set r"
  shows "id_ev e \<notin> consumedBy s (groupKey k g)"
  using assms
proof (induction as arbitrary: s outs)
  case Nil
  then show ?case by simp
next
  case (Cons a as)
  from Cons.prems(1) obtain outs' where o: "outs = snd (step a s) # outs'"
      "run as (fst (step a s)) = (s', outs')"
    by (rule run_ConsE)
  show ?case
  proof (cases "Returned (Some k) (Some g) r \<in> set outs'")
    case True
    from Cons.IH [OF o(2) True Cons.prems(3)] step_consumed_mono [of s "groupKey k g" a]
    show ?thesis by auto
  next
    case False
    with Cons.prems(2) o have "step a s = (fst (step a s), Returned (Some k) (Some g) r)"
      by (auto simp: prod_eq_iff)
    from step_Returned [OF this Cons.prems(3)] show ?thesis by auto
  qed
qed

text \<open>
  C1. Along any run of the event loop, from any state, two results that \<open>blockingGet\<close>
  returns for the same \<open>key\<close> and \<open>groupId\<close> (at once, or after its wait) have no
  event id in common.
\<close>

theorem no_duplicate_delivery:
  assumes "run as s = (s', outs)" and "i < j" and "j < length outs"
    and "outs ! i = Returned key groupId r1" and "outs ! j = Returned key groupId r2"
  shows "id_ev ` set r1 \<inter> id_ev ` set r2 = {}"
  using assms
proof (induction as arbitrary: s outs i j)
  case Nil
  then show ?case by simp
next
  case (Cons a as)
  from Cons.prems(1) obtain outs' where o: "outs = snd (step a s) # outs'"
      "run as (fst (step a s)) = (s', outs')"
    by (rule run_ConsE)
  obtain j' where j: "j = Suc j'" using Cons.prems(2) by (cases j) auto
  show ?case
  proof (cases i)
    case 0
    show ?thesis
    proof (rule ccontr)
      assume "id_ev ` set r1 \<inter> id_ev ` set r2 \<noteq> {}"
      then obtain e1 e2 where e: "e1 \<in> set r1" "e2 \<in> set r2" "id_ev e1 = id_ev e2"
        by auto
      from 0 o Cons.prems(4) have "step a s = (fst (step a s), Returned key groupId r1)"
        by (auto simp: prod_eq_iff)
      from step_Returned [OF this e(1)] obtain k g where kg: "key = Some k" "groupId = Some g"
          "id_ev e1 \<in> consumedBy (fst (step a s)) (groupKey k g)"
        by auto
      from Cons.prems(3,5) j o kg have "Returned (Some k) (Some g) r2 \<in> set outs'"
        by (auto simp: in_set_conv_nth)
      from run_Returned_fresh [OF o(2) this e(2)] kg(3) e(3) show False by simp
    qed
  next
    case (Suc i')
    with Cons.prems(2-5) j o(1) have "i' < j'" "j' < length outs'"
        "outs' ! i' = Returned key groupId r1" "outs' ! j' = Returned key groupId r2"
      by simp_all
    then show ?thesis by (rule Cons.IH [OF o(2)])
  qed
qed

theorem no_duplicate_delivery_witness:
  "run [BlockingGet (Some ''k'') (Some ''g''), Push (Some ''k'') JNull ''a'', Resume 0,
        Push (Some ''k'') (JNum 7) ''b'', BlockingGet (Some ''k'') (Some ''g'')] init =
     (\<lparr> events = [(''k'', [\<lparr>id_ev = ''k-0-a'', data = JObj [], timestamp = 0\<rparr>,
                              \<lparr>id_ev = ''k-0-b'', data = JNum 7, timestamp = 0\<rparr>])],
         groupConsumption = [(''k:g'', {''k-0-b'', ''k-0-a''})], waiters = [], clock = 0,
         nextPromise = 1, fulfilled = {0}, timers = [(0, 30000)], suspended = [],
         resolveLog = [0] \<rparr>,
      [Awaiting 0, Resolved,
       Returned (Some ''k'') (Some ''g'') [\<lparr>id_ev = ''k-0-a'', data = JObj [], timestamp = 0\<rparr>],
       Resolved,
       Returned (Some ''k'') (Some ''g'') [\<lparr>id_ev = ''k-0-b'', data = JNum 7, timestamp = 0\<rparr>]]) \<and>
   id_ev ` set [\<lparr>id_ev = ''k-0-a'', data = JObj [], timestamp = 0\<rparr>] \<inter>
   id_ev ` set [\<lparr>id_ev = ''k-0-b'', data = JNum 7, timestamp = 0\<rparr>] = {}"
proof -
  have r: "run [BlockingGet (Some ''k'') (Some ''g''), Push (Some ''k'') JNull ''a'', Resume 0,
        Push (Some ''k'') (JNum 7) ''b'', BlockingGet (Some ''k'') (Some ''g'')] init =
     (\<lparr> events = [(''k'', [\<lparr>id_ev = ''k-0-a'', data = JObj [], timestamp = 0\<rparr>,
                              \<lparr>id_ev = ''k-0-b'', data = JNum 7, timestamp = 0\<rparr>])],
         groupConsumption = [(''k:g'', {''k-0-b'', ''k-0-a''})], waiters = [], clock = 0,
         nextPromise = 1, fulfilled = {0}, timers = [(0, 30000)], suspended = [],
         resolveLog = [0] \<rparr>,
      [Awaiting 0, Resolved,
       Returned (Some ''k'') (Some ''g'') [\<lparr>id_ev = ''k-0-a'', data = JObj [], timestamp = 0\<rparr>],
       Resolved,
       Returned (Some ''k'') (Some ''g'') [\<lparr>id_ev = ''k-0-b'', data = JNum 7, timestamp = 0\<rparr>]])"
    by code_simp
  from no_duplicate_delivery [OF r, of 2 4 "Some ''k''" "Some ''g''"
      "[\<lparr>id_ev = ''k-0-a'', data = JObj [], timestamp = 0\<rparr>]"
      "[\<lparr>id_ev = ''k-0-b'', data = JNum 7, timestamp = 0\<rparr>]"]
  have "id_ev ` set [\<lparr>id_ev = ''k-0-a'', data = JObj [], timestamp = 0\<rparr>] \<inter>
        id_ev ` set [\<lparr>id_ev = ''k-0-b'', data = JNum 7, timestamp = 0\<rparr>] = {}"
    by simp
  with r show ?thesis by (rule conjI)
qed

section \<open>The retention sweep\<close>

lemma update_middle:
  "k \<notin> fst ` set pre \<Longrightarrow> AList.update k v (pre @ (k, w) # rest) = pre @ (k, v) # rest"
  by (induction pre) auto

lemma delete_middle:
  "k \<notin> fst ` set pre \<Longrightarrow> k \<notin> fst ` set rest \<Longrightarrow>
     AList.delete k (pre @ (k, w) # rest) = pre @ rest"
  by (induction pre) auto

lemma unexpired_120000: "unexpired now e \<longleftrightarrow> now - timestamp e < 120000"
  by (simp add: unexpired_def EVENT_EXPIRY_MS_def)

lemma sweep_loop_prefix:
  "distinct (map fst (pre @ rest)) \<Longrightarrow>
     sweep_loop now rest (pre @ rest) = pre @ pruneExpired_spec now rest"
proof (induction rest arbitrary: pre)
  case Nil
  show ?case by (simp add: pruneExpired_spec_def)
next
  case (Cons kv rest)
  obtain key evts where kv: "kv = (key, evts)" by (cases kv)
  let ?valid = "filter (unexpired now) evts"
  from Cons.prems kv have notin: "key \<notin> fst ` set pre" "key \<notin> fst ` set rest"
    by auto
  show ?case
  proof (cases "?valid = []")
    case True
    from Cons.prems kv have "distinct (map fst (pre @ rest))" by simp
    from Cons.IH [OF this] True notin kv show ?thesis
      by (simp add: map_delete_def delete_middle pruneExpired_spec_def unexpired_120000 [abs_def])
  next
    case False
    from Cons.prems kv have "distinct (map fst ((pre @ [(key, ?valid)]) @ rest))" by simp
    from Cons.IH [OF this] False notin kv show ?thesis
      by (simp add: map_set_def update_middle pruneExpired_spec_def unexpired_120000 [abs_def])
  qed
qed

lemma keys_pruneExpired_spec: "fst ` set (pruneExpired_spec now m) \<subseteq> fst ` set m"
  by (force simp: pruneExpired_spec_def)

lemma map_of_pruneExpired_spec:
  "distinct (map fst m) \<Longrightarrow> map_of (pruneExpired_spec now m) key =
     (case map_of m key of
        None \<Rightarrow> None
      | Some evts \<Rightarrow>
          (if filter (\<lambda>e. now - timestamp e < 120000) evts = [] then None
           else Some (filter (\<lambda>e. now - timestamp e < 120000) evts)))"
proof (induction m)
  case Nil
  show ?case by (simp add: pruneExpired_spec_def)
next
  case (Cons kv m)
  obtain k evts where kv: "kv = (k, evts)" by (cases kv)
  from Cons.prems kv have "k \<notin> fst ` set (pruneExpired_spec now m)"
    using keys_pruneExpired_spec [of now m] by auto
  then have none: "map_of (pruneExpired_spec now m) k = None"
    by (simp add: map_of_eq_None_iff)
  have unfold: "pruneExpired_spec now ((k, evts) # m) =
      (if filter (\<lambda>e. now - timestamp e < 120000) evts = [] then pruneExpired_spec now m
       else (k, filter (\<lambda>e. now - timestamp e < 120000) evts) # pruneExpired_spec now m)"
    by (simp add: pruneExpired_spec_def)
  from Cons.prems have "distinct (map fst m)" by simp
  from Cons.IH [OF this] none show ?case
    unfolding kv unfold by simp
qed

text \<open>
  C8. A run of the sweep at time \<open>now\<close> visits every key of the event store, keeps
  exactly the events with \<open>now - timestamp < 120000\<close> in their order, and removes the
  entry of a key none of whose events survives.
\<close>

theorem cleanup_prunes:
  assumes "distinct (map fst (events s))"
  shows "cleanup s = s\<lparr> events := pruneExpired_spec (clock s) (events s) \<rparr> \<and>
         stored (cleanup s) key =
           filter (\<lambda>e. clock s - timestamp e < 120000) (stored s key) \<and>
         (map_has (events (cleanup s)) key \<longleftrightarrow>
           filter (\<lambda>e. clock s - timestamp e < 120000) (stored s key) \<noteq> [])"
proof -
  from assms have "distinct (map fst ([] @ events s))" by simp
  from sweep_loop_prefix [OF this]
  have c: "cleanup s = s\<lparr> events := pruneExpired_spec (clock s) (events s) \<rparr>"
    by (simp add: cleanup_def)
  then show ?thesis
    by (simp add: stored_def map_get_def map_has_def map_of_pruneExpired_spec [OF assms]
        split: option.splits)
qed

theorem cleanup_prunes_witness:
  "distinct (map fst (events (init\<lparr> clock := 200000, events :=
       [(''a'', [\<lparr>id_ev = ''a-1000-x'', data = JObj [], timestamp = 1000\<rparr>]),
        (''b'', [\<lparr>id_ev = ''b-80000-y'', data = JNum 1, timestamp = 80000\<rparr>,
                 \<lparr>id_ev = ''b-80001-z'', data = JNum 2, timestamp = 80001\<rparr>])] \<rparr>))) \<and>
   cleanup (init\<lparr> clock := 200000, events :=
       [(''a'', [\<lparr>id_ev = ''a-1000-x'', data = JObj [], timestamp = 1000\<rparr>]),
        (''b'', [\<lparr>id_ev = ''b-80000-y'', data = JNum 1, timestamp = 80000\<rparr>,
                 \<lparr>id_ev = ''b-80001-z'', data = JNum 2, timestamp = 80001\<rparr>])] \<rparr>)
     = init\<lparr> clock := 200000, events :=
       [(''b'', [\<lparr>id_ev = ''b-80001-z'', data = JNum 2, timestamp = 80001\<rparr>])] \<rparr>"
proof -
  let ?S = "init\<lparr> clock := 200000, events :=
       [(''a'', [\<lparr>id_ev = ''a-1000-x'', data = JObj [], timestamp = 1000\<rparr>]),
        (''b'', [\<lparr>id_ev = ''b-80000-y'', data = JNum 1, timestamp = 80000\<rparr>,
                 \<lparr>id_ev = ''b-80001-z'', data = JNum 2, timestamp = 80001\<rparr>])] \<rparr>"
  have d: "distinct (map fst (events ?S))"
    by (simp add: init_def)
  have "cleanup ?S = ?S\<lparr> events := pruneExpired_spec (clock ?S) (events ?S) \<rparr>"
    using cleanup_prunes [OF d, of "''a''"] by (rule conjunct1)
  also have "\<dots> = init\<lparr> clock := 200000, events :=
       [(''b'', [\<lparr>id_ev = ''b-80001-z'', data = JNum 2, timestamp = 80001\<rparr>])] \<rparr>"
    by (simp add: init_def pruneExpired_spec_def)
  finally show ?thesis using d by simp
qed

section \<open>Invariants of the stores\<close>

lemma set_update_subset: "set (AList.update k v al) \<subseteq> insert (k, v) (set al)"
  by (induction al) auto

lemma set_delete_subset: "set (AList.delete k al) \<subseteq> set al"
  by (auto simp: AList.delete_eq)

lemma registered_in_waiters:
  "registered s k \<noteq> [] \<Longrightarrow> (k, registered s k) \<in> set (waiters s)"
  by (auto simp: registered_def map_get_def split: option.splits dest: map_of_SomeD)

lemma waiters_ok_registered:
  "waiters_ok s \<Longrightarrow> distinct (registered s k) \<and> (\<forall>p \<in> set (registered s k). p < nextPromise s)"
  using registered_in_waiters [of s k]
  by (cases "registered s k = []") (auto simp: waiters_ok_def)

lemma register_eq:
  "register key groupId s =
     (s\<lparr> waiters := map_set key (registered s key @ [nextPromise s]) (waiters s),
         timers := timers s @ [(nextPromise s, clock s + BLOCKING_TIMEOUT_MS)],
         nextPromise := Suc (nextPromise s),
         suspended := suspended s @ [(nextPromise s, key, groupId)] \<rparr>, nextPromise s)"
  by (auto simp: register_def Let_def registered_def map_has_def map_get_def map_set_def
      update_conv' split: option.splits)

lemma waiters_ok_register: "waiters_ok s \<Longrightarrow> waiters_ok (fst (register key groupId s))"
proof -
  assume ok: "waiters_ok s"
  note r = waiters_ok_registered [OF ok, of key]
  show ?thesis
    unfolding register_eq waiters_ok_def
  proof (clarsimp simp: map_set_def)
    fix k ws
    assume "(k, ws) \<in> set (AList.update key (registered s key @ [nextPromise s]) (waiters s))"
    with set_update_subset
    have "(k, ws) = (key, registered s key @ [nextPromise s]) \<or> (k, ws) \<in> set (waiters s)"
      by fastforce
    then show "distinct ws \<and> (\<forall>p\<in>set ws. p < Suc (nextPromise s))"
    proof
      assume "(k, ws) = (key, registered s key @ [nextPromise s])"
      with r show ?thesis by auto
    next
      assume "(k, ws) \<in> set (waiters s)"
      with ok show ?thesis by (fastforce simp: waiters_ok_def)
    qed
  qed
qed

lemma waiters_ok_markConsumed: "waiters_ok (markConsumed gk es s) = waiters_ok s"
  by (simp add: waiters_ok_def markConsumed_frame)

lemma waiters_ok_suspended: "waiters_ok (s\<lparr> suspended := x \<rparr>) = waiters_ok s"
  by (simp add: waiters_ok_def)

lemma waiters_ok_push:
  assumes "waiters_ok s" and "push key d rnd s = Inr s'"
  shows "waiters_ok s'"
proof -
  from assms(2) obtain k where k: "key = Some k" "k \<noteq> []"
    by (cases key) (auto simp: push_def split: if_splits)
  with assms(2) have "waiters s' = map_delete k (waiters s)" "nextPromise s' = nextPromise s"
    by (auto simp: push_Inr)
  with assms(1) set_delete_subset [of k "waiters s"] show ?thesis
    by (fastforce simp: waiters_ok_def map_delete_def)
qed

lemma waiters_ok_step: "waiters_ok s \<Longrightarrow> waiters_ok (fst (step a s))"
proof (cases a)
  case (Push key d rnd)
  assume ok: "waiters_ok s"
  show ?thesis
  proof (cases "push key d rnd s")
    case (Inl e)
    with Push ok show ?thesis by simp
  next
    case (Inr s')
    from waiters_ok_push [OF ok Inr] Push Inr show ?thesis by simp
  qed
next
  case (BlockingGet key groupId)
  assume ok: "waiters_ok s"
  obtain s' out where bg: "blockingGet key groupId s = (s', out)" by force
  then have "waiters_ok s'"
  proof (cases rule: blockingGet_cases)
    case malformed
    with ok show ?thesis by simp
  next
    case (found k g)
    with ok show ?thesis by (simp add: waiters_ok_markConsumed waiters_ok_suspended)
  next
    case (wait k g)
    with ok show ?thesis by (simp add: waiters_ok_register)
  qed
  with bg BlockingGet show ?thesis by (auto split: outcome.splits)
next
  case (Resume p)
  assume ok: "waiters_ok s"
  obtain s' out where r: "resume p s = (s', out)" by force
  then have "waiters_ok s'"
  proof (cases rule: resume_cases)
    case idle
    with ok show ?thesis by simp
  next
    case (found k g)
    with ok show ?thesis by (simp add: waiters_ok_markConsumed waiters_ok_suspended)
  next
    case (empty k g)
    with ok show ?thesis by (simp add: waiters_ok_suspended)
  qed
  with r Resume show ?thesis by (auto split: option.splits)
next
  case (Timeout p)
  assume "waiters_ok s"
  with Timeout show ?thesis
    by (auto simp: timeout_def resolve_def waiters_ok_def split: option.splits)
next
  case Cleanup
  assume "waiters_ok s"
  with Cleanup show ?thesis by (simp add: cleanup_def waiters_ok_def)
next
  case (Tick ms)
  assume "waiters_ok s"
  with Tick show ?thesis by (simp add: waiters_ok_def)
qed

lemma waiters_ok_run: "waiters_ok s \<Longrightarrow> waiters_ok (fst (run as s))"
proof (induction as arbitrary: s)
  case Nil
  then show ?case by simp
next
  case (Cons a as)
  from Cons.IH [OF waiters_ok_step [OF Cons.prems]] show ?case
    by (simp only: fst_run_Cons)
qed

lemma waiters_ok_init: "waiters_ok init"
  by (simp add: waiters_ok_def init_def)

section \<open>Notification\<close>

text \<open>
  C5. In every state the program can reach, a \<open>push\<close> with a non-empty key succeeds;
  the \<open>resolve\<close> calls it makes are exactly the waiters registered under the key when
  it was called, each of them once; all of them are settled afterwards, and the
  registry has no entry for the key.
\<close>

theorem push_notifies_all:
  assumes "s = fst (run as init)" and "k \<noteq> []"
  shows "\<exists>s'. push (Some k) d rnd s = Inr s' \<and>
           resolveLog s' = resolveLog s @ registered s k \<and>
           distinct (registered s k) \<and>
           set (registered s k) \<subseteq> fulfilled s' \<and>
           \<not> map_has (waiters s') k \<and> registered s' k = []"
proof -
  from assms(1) have "waiters_ok s"
    by (simp add: waiters_ok_run [OF waiters_ok_init])
  then have "distinct (registered s k)"
    by (simp add: waiters_ok_registered)
  with assms(2) show ?thesis
    by (simp add: push_Inr registered_def map_has_def map_get_def map_delete_def delete_conv')
qed

theorem push_notifies_all_witness:
  "''k'' \<noteq> [] \<and>
   (\<exists>s'. push (Some ''k'') JNull ''r''
            (fst (run [BlockingGet (Some ''k'') (Some ''g1''),
                       BlockingGet (Some ''k'') (Some ''g2'')] init)) = Inr s' \<and>
         resolveLog s' = [0, 1] \<and> distinct [0::nat, 1] \<and> set [0, 1] \<subseteq> fulfilled s' \<and>
         \<not> map_has (waiters s') ''k'' \<and> registered s' ''k'' = [])"
proof -
  let ?s = "fst (run [BlockingGet (Some ''k'') (Some ''g1''),
                      BlockingGet (Some ''k'') (Some ''g2'')] init)"
  have r: "registered ?s ''k'' = [0, 1]" by code_simp
  have l: "resolveLog ?s = []" by code_simp
  have k: "''k'' \<noteq> []" by simp
  from push_notifies_all [OF refl k, where as = "[BlockingGet (Some ''k'') (Some ''g1''),
                      BlockingGet (Some ''k'') (Some ''g2'')]" and d = JNull and rnd = "''r''"]
  show ?thesis unfolding r l by simp
qed

section \<open>Expiry\<close>

lemma stored_subset_allEvents: "set (stored s key) \<subseteq> set (allEvents s)"
proof (cases "map_of (events s) key")
  case None
  then show ?thesis by (simp add: stored_def map_get_def)
next
  case (Some evts)
  then have "(key, evts) \<in> set (events s)" by (rule map_of_SomeD)
  then have "set evts \<subseteq> set (allEvents s)" by (force simp: allEvents_def)
  with Some show ?thesis by (simp add: stored_def map_get_def)
qed

lemma getUnconsumed_subset_allEvents: "set (getUnconsumed key gk s) \<subseteq> set (allEvents s)"
  using stored_subset_allEvents [of s key] by (auto simp: getUnconsumed_eq)

lemma concat_update_subset:
  "set (concat (map snd (AList.update k v al))) \<subseteq> set v \<union> set (concat (map snd al))"
  using set_update_subset [of k v al] by fastforce

lemma concat_delete_subset:
  "set (concat (map snd (AList.delete k al))) \<subseteq> set (concat (map snd al))"
  using set_delete_subset [of k al] by fastforce

lemma sweep_loop_subset:
  "set (concat (map snd (sweep_loop now rest m))) \<subseteq>
     set (concat (map snd m)) \<union> set (concat (map snd rest))"
proof (induction rest arbitrary: m)
  case Nil
  show ?case by simp
next
  case (Cons kv rest)
  obtain key evts where kv: "kv = (key, evts)" by (cases kv)
  let ?valid = "filter (unexpired now) evts"
  let ?m' = "if length ?valid > 0 then map_set key ?valid m else map_delete key m"
  have "set (concat (map snd (map_set key ?valid m))) \<subseteq> set evts \<union> set (concat (map snd m))"
    using concat_update_subset [of key ?valid m] unfolding map_set_def by auto
  moreover
  have "set (concat (map snd (map_delete key m))) \<subseteq> set evts \<union> set (concat (map snd m))"
    using concat_delete_subset [of key m] unfolding map_delete_def by blast
  ultimately
  have 1: "set (concat (map snd ?m')) \<subseteq> set evts \<union> set (concat (map snd m))"
    by presburger
  have 2: "sweep_loop now (kv # rest) m = sweep_loop now rest ?m'"
    by (simp add: kv Let_def)
  have 3: "set (concat (map snd (kv # rest))) = set evts \<union> set (concat (map snd rest))"
    by (simp add: kv)
  from Cons.IH [of ?m'] 1 show ?case
    unfolding 2 3 by blast
qed

lemma allEvents_cleanup_subset: "set (allEvents (cleanup s)) \<subseteq> set (allEvents s)"
  using sweep_loop_subset [of "clock s" "events s" "events s"]
  by (simp add: cleanup_def allEvents_def)

lemma allEvents_cleanup_unexpired:
  assumes "distinct (map fst (events s))" and "e \<in> set (allEvents (cleanup s))"
  shows "clock s - timestamp e < 120000"
proof -
  from assms(1) have "distinct (map fst ([] @ events s))" by simp
  from sweep_loop_prefix [OF this]
  have "events (cleanup s) = pruneExpired_spec (clock s) (events s)"
    by (simp add: cleanup_def)
  with assms(2) show ?thesis
    by (auto simp: allEvents_def pruneExpired_spec_def)
qed

lemma fresh_since_cleanup_first:
  "distinct (map fst (events s)) \<Longrightarrow> fresh_since (clock s) (cleanup s)"
  using allEvents_cleanup_unexpired [of s]
  by (auto simp: fresh_since_def cleanup_def)

lemma fresh_since_push:
  assumes "fresh_since b s" and "push key d rnd s = Inr s'"
  shows "fresh_since b s'"
proof -
  from assms(2) obtain k where k: "key = Some k" "k \<noteq> []"
    by (cases key) (auto simp: push_def split: if_splits)
  with assms(2) have ev: "events s' = map_set k (stored s k @ [newEvent k d rnd s]) (events s)"
    and cl: "clock s' = clock s"
    by (auto simp: push_Inr)
  have "set (allEvents s') \<subseteq> set (stored s k @ [newEvent k d rnd s]) \<union> set (allEvents s)"
    unfolding allEvents_def ev map_set_def by (rule concat_update_subset)
  with stored_subset_allEvents [of s k]
  have "set (allEvents s') \<subseteq> insert (newEvent k d rnd s) (set (allEvents s))"
    by auto
  moreover from assms(1) have "b - timestamp (newEvent k d rnd s) < 120000"
    by (simp add: fresh_since_def newEvent_def)
  ultimately show ?thesis
    using assms(1) cl by (auto simp: fresh_since_def)
qed

lemma fresh_since_events_cong:
  "events s' = events s \<Longrightarrow> clock s' = clock s \<Longrightarrow> fresh_since b s \<Longrightarrow> fresh_since b s'"
  by (simp add: fresh_since_def allEvents_def)

lemma fresh_since_step: "fresh_since b s \<Longrightarrow> fresh_since b (fst (step a s))"
proof (cases a)
  case (Push key d rnd)
  assume ok: "fresh_since b s"
  show ?thesis
  proof (cases "push key d rnd s")
    case (Inl e)
    with Push ok show ?thesis by simp
  next
    case (Inr s')
    from fresh_since_push [OF ok Inr] Push Inr show ?thesis by simp
  qed
next
  case (BlockingGet key groupId)
  assume ok: "fresh_since b s"
  obtain s' out where bg: "blockingGet key groupId s = (s', out)" by force
  then have "events s' = events s \<and> clock s' = clock s"
    by (cases rule: blockingGet_cases) (simp_all add: markConsumed_frame register_eq)
  with ok have "fresh_since b s'" by (simp add: fresh_since_def allEvents_def)
  with bg BlockingGet show ?thesis by (auto split: outcome.splits)
next
  case (Resume p)
  assume ok: "fresh_since b s"
  obtain s' out where r: "resume p s = (s', out)" by force
  then have "events s' = events s \<and> clock s' = clock s"
    by (cases rule: resume_cases) (simp_all add: markConsumed_frame)
  with ok have "fresh_since b s'" by (simp add: fresh_since_def allEvents_def)
  with r Resume show ?thesis by (auto split: option.splits)
next
  case (Timeout p)
  assume "fresh_since b s"
  with Timeout show ?thesis
    by (simp add: timeout_def resolve_def fresh_since_def allEvents_def split: option.splits)
next
  case Cleanup
  assume "fresh_since b s"
  with Cleanup allEvents_cleanup_subset [of s] show ?thesis
    by (auto simp: fresh_since_def cleanup_def)
next
  case (Tick ms)
  assume "fresh_since b s"
  with Tick show ?thesis by (simp add: fresh_since_def allEvents_def)
qed

lemma step_Returned_subset:
  assumes "step a s = (s', Returned key groupId r)"
  shows "set r \<subseteq> set (allEvents s)"
proof (cases a)
  case (Push key' d rnd)
  with assms show ?thesis by (auto split: sum.splits)
next
  case (BlockingGet key' groupId')
  obtain s1 out where bg: "blockingGet key' groupId' s = (s1, out)" by force
  from bg have "\<And>r'. out = Return r' \<Longrightarrow> set r' \<subseteq> set (allEvents s)"
    by (cases rule: blockingGet_cases) (auto dest: subsetD [OF getUnconsumed_subset_allEvents])
  with assms bg BlockingGet show ?thesis by (auto split: outcome.splits)
next
  case (Resume p)
  obtain s1 out where r: "resume p s = (s1, out)" by force
  from r have "\<And>k g r'. out = Some (k, g, r') \<Longrightarrow> set r' \<subseteq> set (allEvents s)"
    by (cases rule: resume_cases) (auto dest: subsetD [OF getUnconsumed_subset_allEvents])
  with assms r Resume show ?thesis by (auto split: option.splits)
next
  case (Timeout p)
  with assms show ?thesis by simp
next
  case Cleanup
  with assms show ?thesis by simp
next
  case (Tick ms)
  with assms show ?thesis by simp
qed

lemma run_Returned_fresh_since:
  assumes "fresh_since b s" and "run as s = (s', outs)"
    and "Returned key groupId r \<in> set outs" and "e \<in> set r"
  shows "b - timestamp e < 120000"
  using assms
proof (induction as arbitrary: s outs)
  case Nil
  then show ?case by simp
next
  case (Cons a as)
  from Cons.prems(2) obtain outs' where o: "outs = snd (step a s) # outs'"
      "run as (fst (step a s)) = (s', outs')"
    by (rule run_ConsE)
  show ?case
  proof (cases "Returned key groupId r \<in> set outs'")
    case True
    from Cons.IH [OF fresh_since_step [OF Cons.prems(1)] o(2) True Cons.prems(4)]
    show ?thesis .
  next
    case False
    with Cons.prems(3) o have "step a s = (fst (step a s), Returned key groupId r)"
      by (auto simp: prod_eq_iff)
    from step_Returned_subset [OF this] Cons.prems(1,4) show ?thesis
      by (auto simp: fresh_since_def)
  qed
qed

text \<open>
  C2, as the code has it. \<open>blockingGet\<close> reads no clock: an event leaves its results
  only once a sweep has removed it from the store. After a sweep that runs at a time
  \<open>now\<close>, no later result, for any key and group, holds an event whose timestamp is
  \<open>now - 120000\<close> or older.
\<close>

theorem swept_events_not_returned:
  assumes "distinct (map fst (events s))"
    and "run (Cleanup # as) s = (s', outs)"
    and "Returned key groupId r \<in> set outs"
    and "timestamp e + 120000 \<le> clock s"
  shows "e \<notin> set r"
proof
  assume e: "e \<in> set r"
  from assms(2) obtain outs' where o: "outs = snd (step Cleanup s) # outs'"
      "run as (fst (step Cleanup s)) = (s', outs')"
    by (rule run_ConsE)
  from o(1) assms(3) have "Returned key groupId r \<in> set outs'" by simp
  from run_Returned_fresh_since [OF _ _ this e, of "clock s" "cleanup s" as s']
    fresh_since_cleanup_first [OF assms(1)] o(2)
  have "clock s - timestamp e < 120000" by simp
  with assms(4) show False by simp
qed

theorem swept_events_not_returned_witness:
  "distinct (map fst (events (init\<lparr> clock := 125000, events :=
      [(''k'', [\<lparr>id_ev = ''k-5000-a'', data = JObj [], timestamp = 5000\<rparr>,
                \<lparr>id_ev = ''k-125000-b'', data = JNum 1, timestamp = 125000\<rparr>])] \<rparr>))) \<and>
   run [Cleanup, BlockingGet (Some ''k'') (Some ''g'')]
     (init\<lparr> clock := 125000, events :=
      [(''k'', [\<lparr>id_ev = ''k-5000-a'', data = JObj [], timestamp = 5000\<rparr>,
                \<lparr>id_ev = ''k-125000-b'', data = JNum 1, timestamp = 125000\<rparr>])] \<rparr>) =
     (init\<lparr> clock := 125000,
            events := [(''k'', [\<lparr>id_ev = ''k-125000-b'', data = JNum 1, timestamp = 125000\<rparr>])],
            groupConsumption := [(''k:g'', {''k-125000-b''})] \<rparr>,
      [Idle, Returned (Some ''k'') (Some ''g'')
               [\<lparr>id_ev = ''k-125000-b'', data = JNum 1, timestamp = 125000\<rparr>]]) \<and>
   timestamp \<lparr>id_ev = ''k-5000-a'', data = JObj [], timestamp = 5000\<rparr> + 120000 \<le> 125000 \<and>
   \<lparr>id_ev = ''k-5000-a'', data = JObj [], timestamp = 5000\<rparr> \<notin>
     set [\<lparr>id_ev = ''k-125000-b'', data = JNum 1, timestamp = 125000\<rparr>]"
proof -
  let ?a = "\<lparr>id_ev = ''k-5000-a'', data = JObj [], timestamp = 5000\<rparr>"
  let ?b = "\<lparr>id_ev = ''k-125000-b'', data = JNum 1, timestamp = 125000\<rparr>"
  let ?S = "init\<lparr> clock := 125000, events := [(''k'', [?a, ?b])] \<rparr>"
  have d: "distinct (map fst (events ?S))" by (simp add: init_def)
  have r: "run [Cleanup, BlockingGet (Some ''k'') (Some ''g'')] ?S =
     (init\<lparr> clock := 125000, events := [(''k'', [?b])],
            groupConsumption := [(''k:g'', {''k-125000-b''})] \<rparr>,
      [Idle, Returned (Some ''k'') (Some ''g'') [?b]])"
    by code_simp
  have m: "Returned (Some ''k'') (Some ''g'') [?b] \<in>
           set [Idle, Returned (Some ''k'') (Some ''g'') [?b]]"
    by simp
  have t: "timestamp ?a + 120000 \<le> clock ?S" by (simp add: init_def)
  from swept_events_not_returned [OF d r m t] have "?a \<notin> set [?b]" .
  with d r show ?thesis by simp
qed

lemma run_step:
  "step a s = (s1, out) \<Longrightarrow> run as s1 = (s2, outs) \<Longrightarrow> run (a # as) s = (s2, out # outs)"
  by simp

lemmas eval_defs = init_def push_def Let_def check_def register_def resume_def timeout_def
  cleanup_def getUnconsumed_def markConsumed_def resolve_def newEvent_def groupKey_def
  map_has_def map_get_def map_set_def map_delete_def show_int_def show_nat.simps
  unexpired_def EVENT_EXPIRY_MS_def BLOCKING_TIMEOUT_MS_def

text \<open>
  C2, as stated, fails. The clock starts at 0; an event is pushed at 5000; the sweep
  that runs at 120000 keeps it (its age is 115000); the first \<open>blockingGet\<close> of group
  \<open>g\<close> runs at 125000, that is 120000 ms after the push, and returns the event.
\<close>

theorem expired_event_returned_counterexample:
  "run [Tick 5000, Push (Some ''k'') JNull ''r'', Tick 115000, Cleanup, Tick 5000] init =
     (init\<lparr> clock := 125000, events :=
         [(''k'', [\<lparr>id_ev = ''k-5000-r'', data = JObj [], timestamp = 5000\<rparr>])] \<rparr>,
      [Idle, Resolved, Idle, Idle, Idle]) \<and>
   125000 = 5000 + EVENT_EXPIRY_MS \<and>
   step (BlockingGet (Some ''k'') (Some ''g''))
     (init\<lparr> clock := 125000, events :=
         [(''k'', [\<lparr>id_ev = ''k-5000-r'', data = JObj [], timestamp = 5000\<rparr>])] \<rparr>) =
     (init\<lparr> clock := 125000,
            events := [(''k'', [\<lparr>id_ev = ''k-5000-r'', data = JObj [], timestamp = 5000\<rparr>])],
            groupConsumption := [(''k:g'', {''k-5000-r''})] \<rparr>,
      Returned (Some ''k'') (Some ''g'')
        [\<lparr>id_ev = ''k-5000-r'', data = JObj [], timestamp = 5000\<rparr>])"
proof -
  let ?e = "\<lparr>id_ev = ''k-5000-r'', data = JObj [], timestamp = 5000\<rparr>"
  have 1: "step (Tick 5000) init = (init\<lparr> clock := 5000 \<rparr>, Idle)"
    by (simp add: init_def)
  have 2: "step (Push (Some ''k'') JNull ''r'') (init\<lparr> clock := 5000 \<rparr>) =
             (init\<lparr> clock := 5000, events := [(''k'', [?e])] \<rparr>, Resolved)"
    by (simp add: eval_defs)
  have 3: "step (Tick 115000) (init\<lparr> clock := 5000, events := [(''k'', [?e])] \<rparr>) =
             (init\<lparr> clock := 120000, events := [(''k'', [?e])] \<rparr>, Idle)"
    by (simp add: init_def)
  have 4: "step Cleanup (init\<lparr> clock := 120000, events := [(''k'', [?e])] \<rparr>) =
             (init\<lparr> clock := 120000, events := [(''k'', [?e])] \<rparr>, Idle)"
    by (simp add: eval_defs)
  have 5: "step (Tick 5000) (init\<lparr> clock := 120000, events := [(''k'', [?e])] \<rparr>) =
             (init\<lparr> clock := 125000, events := [(''k'', [?e])] \<rparr>, Idle)"
    by (simp add: init_def)
  have 6: "step (BlockingGet (Some ''k'') (Some ''g''))
             (init\<lparr> clock := 125000, events := [(''k'', [?e])] \<rparr>) =
           (init\<lparr> clock := 125000, events := [(''k'', [?e])],
                  groupConsumption := [(''k:g'', {''k-5000-r''})] \<rparr>,
            Returned (Some ''k'') (Some ''g'') [?e])"
    by (simp add: eval_defs)
  have r: "run [Tick 5000, Push (Some ''k'') JNull ''r'', Tick 115000, Cleanup, Tick 5000] init =
     (init\<lparr> clock := 125000, events := [(''k'', [?e])] \<rparr>, [Idle, Resolved, Idle, Idle, Idle])"
    by (rule run_step [OF 1] run_step [OF 2] run_step [OF 3] run_step [OF 4] run_step [OF 5]
        run.simps(1))+
  have c: "(125000::int) = 5000 + EVENT_EXPIRY_MS" by (simp add: EVENT_EXPIRY_MS_def)
  from r c 6 show ?thesis by (intro conjI)
qed

section \<open>Consumer groups\<close>

lemma groupKey_same_key: "groupKey k g1 = groupKey k g2 \<longleftrightarrow> g1 = g2"
  by (simp add: groupKey_def)

lemma getUnconsumed_markConsumed_other:
  "gk' \<noteq> gk \<Longrightarrow> getUnconsumed k gk' (markConsumed gk es s) = getUnconsumed k gk' s"
  by (simp add: getUnconsumed_eq consumedBy_markConsumed stored_markConsumed)

lemma getUnconsumed_markConsumed_self:
  "getUnconsumed k gk (markConsumed gk (getUnconsumed k gk s) s) = []"
  by (auto simp: getUnconsumed_eq consumedBy_markConsumed stored_markConsumed filter_empty_conv)

lemma blockingGet_found:
  assumes "k \<noteq> []" "g \<noteq> []" "getUnconsumed k (groupKey k g) s \<noteq> []"
  shows "blockingGet (Some k) (Some g) s =
           (markConsumed (groupKey k g) (getUnconsumed k (groupKey k g) s) s,
            Return (getUnconsumed k (groupKey k g) s))"
  using assms by (simp add: check_def Let_def)

lemma count_list_filter_kept: "P e \<Longrightarrow> count_list (filter P xs) e = count_list xs e"
  by (induction xs) auto

text \<open>
  C6. Let an event be stored under \<open>key\<close>, and let its id be in the consumed set of
  neither of two distinct groups. When the first group and then the second call
  \<open>blockingGet\<close> for the key, with no sweep in between, each call returns exactly the
  stored events whose ids that group had not consumed, the event among them, as often as
  it is stored; the second group's result does not depend on what the first consumed.
  The store is unchanged, each group's consumed set has grown by the ids returned to it,
  and a further call of either group does not return the event again.
\<close>

theorem broadcast_to_groups:
  assumes "k \<noteq> []" and "g1 \<noteq> []" and "g2 \<noteq> []" and "g1 \<noteq> g2"
    and "e \<in> set (stored s k)"
    and "id_ev e \<notin> consumedBy s (groupKey k g1)"
    and "id_ev e \<notin> consumedBy s (groupKey k g2)"
    and "blockingGet (Some k) (Some g1) s = (s1, out1)"
    and "blockingGet (Some k) (Some g2) s1 = (s2, out2)"
  shows "(\<exists>r1 r2.
           out1 = Return r1 \<and> out2 = Return r2 \<and>
           r1 = filter (\<lambda>x. id_ev x \<notin> consumedBy s (groupKey k g1)) (stored s k) \<and>
           r2 = filter (\<lambda>x. id_ev x \<notin> consumedBy s (groupKey k g2)) (stored s k) \<and>
           e \<in> set r1 \<and> e \<in> set r2 \<and>
           count_list r1 e = count_list (stored s k) e \<and>
           count_list r2 e = count_list (stored s k) e \<and>
           consumedBy s2 (groupKey k g1) = consumedBy s (groupKey k g1) \<union> id_ev ` set r1 \<and>
           consumedBy s2 (groupKey k g2) = consumedBy s (groupKey k g2) \<union> id_ev ` set r2) \<and>
         stored s2 k = stored s k \<and>
         (\<forall>r. snd (blockingGet (Some k) (Some g1) s2) = Return r \<longrightarrow> e \<notin> set r) \<and>
         (\<forall>r. snd (blockingGet (Some k) (Some g2) s2) = Return r \<longrightarrow> e \<notin> set r)"
proof -
  let ?gk1 = "groupKey k g1" and ?gk2 = "groupKey k g2"
  let ?r1 = "filter (\<lambda>x. id_ev x \<notin> consumedBy s ?gk1) (stored s k)"
  let ?r2 = "filter (\<lambda>x. id_ev x \<notin> consumedBy s ?gk2) (stored s k)"
  from assms(4) have ne: "?gk2 \<noteq> ?gk1" "?gk1 \<noteq> ?gk2"
    by (simp_all add: groupKey_same_key)
  have u1: "getUnconsumed k ?gk1 s = ?r1" by (rule getUnconsumed_eq)
  from assms(5,6) have e1: "e \<in> set ?r1" by simp
  then have n1: "getUnconsumed k ?gk1 s \<noteq> []" unfolding u1 by (auto simp: filter_empty_conv)
  from blockingGet_found [OF assms(1,2) n1] assms(8)
  have s1: "s1 = markConsumed ?gk1 ?r1 s" and o1: "out1 = Return ?r1"
    by (simp_all add: u1)
  have c12: "consumedBy s1 ?gk2 = consumedBy s ?gk2"
    using ne(1) by (simp add: s1 consumedBy_markConsumed)
  have st1: "stored s1 k = stored s k"
    by (simp add: s1 stored_markConsumed)
  have u2: "getUnconsumed k ?gk2 s1 = ?r2"
    by (simp add: getUnconsumed_eq c12 st1)
  from assms(5,7) have e2: "e \<in> set ?r2" by simp
  then have n2: "getUnconsumed k ?gk2 s1 \<noteq> []" unfolding u2 by (auto simp: filter_empty_conv)
  from blockingGet_found [OF assms(1,3) n2] assms(9)
  have s2: "s2 = markConsumed ?gk2 ?r2 s1" and o2: "out2 = Return ?r2"
    by (simp_all add: u2)
  have st2: "stored s2 k = stored s k"
    by (simp add: s2 stored_markConsumed st1)
  have c1: "consumedBy s2 ?gk1 = consumedBy s ?gk1 \<union> id_ev ` set ?r1"
    using ne(2) by (simp add: s2 s1 consumedBy_markConsumed)
  have c2: "consumedBy s2 ?gk2 = consumedBy s ?gk2 \<union> id_ev ` set ?r2"
    by (simp add: s2 consumedBy_markConsumed c12)
  have k1: "count_list ?r1 e = count_list (stored s k) e"
    using assms(6) by (simp add: count_list_filter_kept)
  have k2: "count_list ?r2 e = count_list (stored s k) e"
    using assms(7) by (simp add: count_list_filter_kept)
  have again: "e \<notin> set r"
    if "snd (blockingGet (Some k) (Some g) s2) = Return r"
      and "id_ev e \<in> consumedBy s2 (groupKey k g)" for g r
  proof -
    obtain s3 out3 where b: "blockingGet (Some k) (Some g) s2 = (s3, out3)" by force
    from that(1) have o: "out3 = Return r" unfolding b by (simp only: snd_conv)
    from b have "set r \<subseteq> set (getUnconsumed k (groupKey k g) s2)"
      using o by (cases rule: blockingGet_cases) auto
    with that(2) show ?thesis by (auto simp: getUnconsumed_eq)
  qed
  from e1 c1 have m1: "id_ev e \<in> consumedBy s2 ?gk1" by auto
  from e2 c2 have m2: "id_ev e \<in> consumedBy s2 ?gk2" by auto
  from again [OF _ m1] again [OF _ m2]
  have a: "(\<forall>r. snd (blockingGet (Some k) (Some g1) s2) = Return r \<longrightarrow> e \<notin> set r) \<and>
           (\<forall>r. snd (blockingGet (Some k) (Some g2) s2) = Return r \<longrightarrow> e \<notin> set r)"
    by blast
  from o1 o2 e1 e2 k1 k2 c1 c2 st2 a show ?thesis by blast
qed

theorem broadcast_to_groups_witness:
  "''k'' \<noteq> [] \<and> ''g1'' \<noteq> [] \<and> ''g2'' \<noteq> [] \<and> ''g1'' \<noteq> ''g2'' \<and>
   \<lparr>id_ev = ''k-0-b'', data = JNum 2, timestamp = 0\<rparr> \<in>
     set (stored (init\<lparr>events := [(''k'', [\<lparr>id_ev = ''k-0-a'', data = JNum 1, timestamp = 0\<rparr>,
                                             \<lparr>id_ev = ''k-0-b'', data = JNum 2, timestamp = 0\<rparr>])],
                        groupConsumption := [(''k:g1'', {''k-0-a''})]\<rparr>) ''k'') \<and>
   ''k-0-b'' \<notin> consumedBy
       (init\<lparr>events := [(''k'', [\<lparr>id_ev = ''k-0-a'', data = JNum 1, timestamp = 0\<rparr>,
                                  \<lparr>id_ev = ''k-0-b'', data = JNum 2, timestamp = 0\<rparr>])],
             groupConsumption := [(''k:g1'', {''k-0-a''})]\<rparr>) (groupKey ''k'' ''g1'') \<and>
   ''k-0-b'' \<notin> consumedBy
       (init\<lparr>events := [(''k'', [\<lparr>id_ev = ''k-0-a'', data = JNum 1, timestamp = 0\<rparr>,
                                  \<lparr>id_ev = ''k-0-b'', data = JNum 2, timestamp = 0\<rparr>])],
             groupConsumption := [(''k:g1'', {''k-0-a''})]\<rparr>) (groupKey ''k'' ''g2'') \<and>
   blockingGet (Some ''k'') (Some ''g1'')
     (init\<lparr>events := [(''k'', [\<lparr>id_ev = ''k-0-a'', data = JNum 1, timestamp = 0\<rparr>,
                                \<lparr>id_ev = ''k-0-b'', data = JNum 2, timestamp = 0\<rparr>])],
           groupConsumption := [(''k:g1'', {''k-0-a''})]\<rparr>) =
     (init\<lparr>events := [(''k'', [\<lparr>id_ev = ''k-0-a'', data = JNum 1, timestamp = 0\<rparr>,
                                \<lparr>id_ev = ''k-0-b'', data = JNum 2, timestamp = 0\<rparr>])],
           groupConsumption := [(''k:g1'', {''k-0-a'', ''k-0-b''})]\<rparr>,
      Return [\<lparr>id_ev = ''k-0-b'', data = JNum 2, timestamp = 0\<rparr>]) \<and>
   blockingGet (Some ''k'') (Some ''g2'')
     (init\<lparr>events := [(''k'', [\<lparr>id_ev = ''k-0-a'', data = JNum 1, timestamp = 0\<rparr>,
                                \<lparr>id_ev = ''k-0-b'', data = JNum 2, timestamp = 0\<rparr>])],
           groupConsumption := [(''k:g1'', {''k-0-a'', ''k-0-b''})]\<rparr>) =
     (init\<lparr>events := [(''k'', [\<lparr>id_ev = ''k-0-a'', data = JNum 1, timestamp = 0\<rparr>,
                                \<lparr>id_ev = ''k-0-b'', data = JNum 2, timestamp = 0\<rparr>])],
           groupConsumption := [(''k:g1'', {''k-0-a'', ''k-0-b''}),
                                (''k:g2'', {''k-0-a'', ''k-0-b''})]\<rparr>,
      Return [\<lparr>id_ev = ''k-0-a'', data = JNum 1, timestamp = 0\<rparr>,
              \<lparr>id_ev = ''k-0-b'', data = JNum 2, timestamp = 0\<rparr>]) \<and>
   stored (init\<lparr>events := [(''k'', [\<lparr>id_ev = ''k-0-a'', data = JNum 1, timestamp = 0\<rparr>,
                                      \<lparr>id_ev = ''k-0-b'', data = JNum 2, timestamp = 0\<rparr>])],
                 groupConsumption := [(''k:g1'', {''k-0-a'', ''k-0-b''}),
                                      (''k:g2'', {''k-0-a'', ''k-0-b''})]\<rparr>) ''k'' =
     [\<lparr>id_ev = ''k-0-a'', data = JNum 1, timestamp = 0\<rparr>,
      \<lparr>id_ev = ''k-0-b'', data = JNum 2, timestamp = 0\<rparr>] \<and>
   snd (blockingGet (Some ''k'') (Some ''g1'')
     (init\<lparr>events := [(''k'', [\<lparr>id_ev = ''k-0-a'', data = JNum 1, timestamp = 0\<rparr>,
                                \<lparr>id_ev = ''k-0-b'', data = JNum 2, timestamp = 0\<rparr>])],
           groupConsumption := [(''k:g1'', {''k-0-a'', ''k-0-b''}),
                                (''k:g2'', {''k-0-a'', ''k-0-b''})]\<rparr>)) = Await 0"
proof -
  let ?a = "\<lparr>id_ev = ''k-0-a'', data = JNum 1, timestamp = 0\<rparr>"
  let ?e = "\<lparr>id_ev = ''k-0-b'', data = JNum 2, timestamp = 0\<rparr>"
  let ?s = "init\<lparr>events := [(''k'', [?a, ?e])], groupConsumption := [(''k:g1'', {''k-0-a''})]\<rparr>"
  let ?s1 = "init\<lparr>events := [(''k'', [?a, ?e])],
                   groupConsumption := [(''k:g1'', {''k-0-a'', ''k-0-b''})]\<rparr>"
  let ?s2 = "init\<lparr>events := [(''k'', [?a, ?e])],
                   groupConsumption := [(''k:g1'', {''k-0-a'', ''k-0-b''}),
                                        (''k:g2'', {''k-0-a'', ''k-0-b''})]\<rparr>"
  have a: "''k'' \<noteq> []" "''g1'' \<noteq> []" "''g2'' \<noteq> []" "''g1'' \<noteq> ''g2''" by simp_all
  have st: "?e \<in> set (stored ?s ''k'')"
    by (simp add: stored_def eval_defs)
  have c1: "''k-0-b'' \<notin> consumedBy ?s (groupKey ''k'' ''g1'')"
    by (simp add: consumedBy_def eval_defs)
  have c2: "''k-0-b'' \<notin> consumedBy ?s (groupKey ''k'' ''g2'')"
    by (simp add: consumedBy_def eval_defs)
  have b1: "blockingGet (Some ''k'') (Some ''g1'') ?s = (?s1, Return [?e])"
    by (simp add: eval_defs insert_commute)
  have b2: "blockingGet (Some ''k'') (Some ''g2'') ?s1 = (?s2, Return [?a, ?e])"
    by (simp add: eval_defs insert_commute)
  have b3: "snd (blockingGet (Some ''k'') (Some ''g1'') ?s2) = Await 0"
    by (simp add: eval_defs)
  have i1: "id_ev ?e \<notin> consumedBy ?s (groupKey ''k'' ''g1'')" using c1 by simp
  have i2: "id_ev ?e \<notin> consumedBy ?s (groupKey ''k'' ''g2'')" using c2 by simp
  from broadcast_to_groups [OF a st i1 i2 b1 b2]
  have "stored ?s2 ''k'' = stored ?s ''k''" by blast
  then have s2: "stored ?s2 ''k'' = [?a, ?e]"
    by (simp add: stored_def eval_defs)
  from a st c1 c2 b1 b2 s2 b3 show ?thesis by (intro conjI)
qed

lemma stored_push:
  "k \<noteq> [] \<Longrightarrow> push (Some k) d rnd s = Inr s' \<Longrightarrow>
     stored s' key = (if key = k then stored s k @ [newEvent k d rnd s] else stored s key)"
  by (auto simp: push_Inr stored_def map_get_def map_set_def update_conv')

text \<open>An event visible to the filter of a consumption key stays visible over every step
  that is neither a sweep nor a delivery recorded under that consumption key.\<close>

lemma step_keeps_visible:
  assumes "e \<in> set (getUnconsumed k gk s)" and "a \<noteq> Cleanup"
    and "\<And>k' g' r. snd (step a s) = Returned (Some k') (Some g') r \<Longrightarrow> groupKey k' g' \<noteq> gk"
  shows "e \<in> set (getUnconsumed k gk (fst (step a s)))"
proof (cases a)
  case (Push key d rnd)
  show ?thesis
  proof (cases "push key d rnd s")
    case (Inl err)
    with Push assms(1) show ?thesis by simp
  next
    case (Inr s')
    then obtain k' where k': "key = Some k'" "k' \<noteq> []"
      by (cases key) (auto simp: push_def split: if_splits)
    from Inr k' have "set (stored s k) \<subseteq> set (stored s' k)"
      by (auto simp: stored_push)
    moreover from Inr have "consumedBy s' gk = consumedBy s gk"
      by (simp add: consumedBy_cong [OF push_groupConsumption])
    ultimately show ?thesis using assms(1) Push Inr
      by (auto simp: getUnconsumed_eq)
  qed
next
  case (BlockingGet key groupId)
  obtain s' out where bg: "blockingGet key groupId s = (s', out)" by force
  from bg have "e \<in> set (getUnconsumed k gk s')"
  proof (cases rule: blockingGet_cases)
    case malformed
    with assms(1) show ?thesis by simp
  next
    case (found k' g')
    with bg BlockingGet assms(3) [of k' g' "getUnconsumed k' (groupKey k' g') s"]
    have "gk \<noteq> groupKey k' g'" by auto
    with found assms(1) show ?thesis
      by (simp add: getUnconsumed_markConsumed_other)
  next
    case (wait k' g')
    with assms(1) show ?thesis by (simp add: register_eq getUnconsumed_def)
  qed
  with bg BlockingGet show ?thesis by (auto split: outcome.splits)
next
  case (Resume p)
  obtain s' out where r: "resume p s = (s', out)" by force
  have sus: "\<And>x. getUnconsumed k gk (s\<lparr>suspended := x\<rparr>) = getUnconsumed k gk s"
    by (simp add: getUnconsumed_def)
  from r have "e \<in> set (getUnconsumed k gk s')"
  proof (cases rule: resume_cases)
    case idle
    with assms(1) show ?thesis by simp
  next
    case (found k' g')
    with r Resume assms(3) [of k' g' "getUnconsumed k' (groupKey k' g') s"]
    have "gk \<noteq> groupKey k' g'" by auto
    with found assms(1) show ?thesis
      by (simp add: getUnconsumed_markConsumed_other sus)
  next
    case (empty k' g')
    with assms(1) show ?thesis by (simp add: sus)
  qed
  with r Resume show ?thesis by (auto split: option.splits)
next
  case (Timeout p)
  with assms(1) show ?thesis
    by (simp add: timeout_def resolve_def getUnconsumed_def split: option.splits)
next
  case Cleanup
  with assms(2) show ?thesis by simp
next
  case (Tick ms)
  with assms(1) show ?thesis by (simp add: getUnconsumed_def)
qed

section \<open>The consumption key\<close>

text \<open>
  C9. The consumption key is \<open>key\<close>, a colon and \<open>groupId\<close> put together. It is the
  same for the distinct pairs \<open>(a:b, c)\<close> and \<open>(a, b:c)\<close>, so both pairs read and write one set of
  consumed ids: what \<open>markConsumed\<close> records for the first is recorded for the second,
  and after a \<open>blockingGet\<close> of the first pair has returned events, their ids are consumed
  for the second pair and its filter hides every event with such an id.
\<close>

theorem groupKey_not_injective:
  assumes "blockingGet (Some ''a:b'') (Some ''c'') s = (s', Return r)"
  shows "(''a:b'', ''c'') \<noteq> (''a'', ''b:c'') \<and>
         groupKey ''a:b'' ''c'' = groupKey ''a'' ''b:c'' \<and>
         id_ev ` set es \<subseteq> consumedBy (markConsumed (groupKey ''a:b'' ''c'') es s)
                                  (groupKey ''a'' ''b:c'') \<and>
         id_ev ` set r \<subseteq> consumedBy s' (groupKey ''a'' ''b:c'') \<and>
         id_ev ` set (getUnconsumed ''a'' (groupKey ''a'' ''b:c'') s') \<inter> id_ev ` set r = {}"
proof -
  have eq: "groupKey ''a:b'' ''c'' = groupKey ''a'' ''b:c''"
    by (simp add: groupKey_def)
  have m: "id_ev ` set es \<subseteq> consumedBy (markConsumed (groupKey ''a:b'' ''c'') es s)
                                  (groupKey ''a'' ''b:c'')"
    by (simp add: consumedBy_markConsumed eq)
  from assms have r: "id_ev ` set r \<subseteq> consumedBy s' (groupKey ''a'' ''b:c'')"
  proof (cases rule: blockingGet_cases)
    case malformed
    then show ?thesis by simp
  next
    case (found k g)
    then show ?thesis by (auto simp: consumedBy_markConsumed eq [symmetric])
  next
    case (wait k g)
    then show ?thesis by simp
  qed
  then have "id_ev ` set (getUnconsumed ''a'' (groupKey ''a'' ''b:c'') s') \<inter> id_ev ` set r = {}"
    by (auto simp: getUnconsumed_eq)
  with eq m r show ?thesis by simp
qed

theorem groupKey_not_injective_witness:
  "blockingGet (Some ''a:b'') (Some ''c'')
     (init\<lparr>events := [(''a:b'', [\<lparr>id_ev = ''a:b-0-r'', data = JNum 1, timestamp = 0\<rparr>])]\<rparr>) =
     (init\<lparr>events := [(''a:b'', [\<lparr>id_ev = ''a:b-0-r'', data = JNum 1, timestamp = 0\<rparr>])],
           groupConsumption := [(''a:b:c'', {''a:b-0-r''})]\<rparr>,
      Return [\<lparr>id_ev = ''a:b-0-r'', data = JNum 1, timestamp = 0\<rparr>]) \<and>
   groupKey ''a:b'' ''c'' = groupKey ''a'' ''b:c'' \<and>
   consumedBy (init\<lparr>events := [(''a:b'', [\<lparr>id_ev = ''a:b-0-r'', data = JNum 1, timestamp = 0\<rparr>])],
           groupConsumption := [(''a:b:c'', {''a:b-0-r''})]\<rparr>) (groupKey ''a'' ''b:c'') = {''a:b-0-r''}"
proof -
  let ?e = "\<lparr>id_ev = ''a:b-0-r'', data = JNum 1, timestamp = 0\<rparr>"
  let ?s = "init\<lparr>events := [(''a:b'', [?e])]\<rparr>"
  let ?s' = "init\<lparr>events := [(''a:b'', [?e])], groupConsumption := [(''a:b:c'', {''a:b-0-r''})]\<rparr>"
  have b: "blockingGet (Some ''a:b'') (Some ''c'') ?s = (?s', Return [?e])"
    by (simp add: eval_defs)
  have c: "consumedBy ?s' (groupKey ''a'' ''b:c'') \<subseteq> {''a:b-0-r''}"
    by (simp add: consumedBy_def eval_defs)
  from groupKey_not_injective [OF b, of "[]"]
  have "groupKey ''a:b'' ''c'' = groupKey ''a'' ''b:c''"
    and "id_ev ` set [?e] \<subseteq> consumedBy ?s' (groupKey ''a'' ''b:c'')"
    by simp_all
  with b c show ?thesis by auto
qed

section \<open>Payloads\<close>

lemma falsy_iff:
  "\<not> truthy d \<longleftrightarrow> d \<in> {JUndefined, JNull, JBool False, JNum 0, JNaN, JStr []}"
  by (cases d) auto

text \<open>
  C10. When \<open>data\<close> is falsy (\<open>null\<close>, \<open>undefined\<close>, \<open>0\<close>, the empty string,
  \<open>false\<close>, also \<open>NaN\<close>), a \<open>push\<close> with a non-empty key appends an event whose
  payload is the empty object, and a following \<open>blockingGet\<close> of a group that has not
  consumed the event's id returns that event, payload \<open>{}\<close> included.
\<close>

theorem falsy_data_becomes_empty_object:
  assumes "d \<in> {JNull, JUndefined, JNum 0, JStr [], JBool False, JNaN}"
    and "k \<noteq> []" and "g \<noteq> []"
    and "id_ev (newEvent k d rnd s) \<notin> consumedBy s (groupKey k g)"
  shows "\<exists>s1 s2 r. push (Some k) d rnd s = Inr s1 \<and>
           stored s1 k = stored s k @ [newEvent k d rnd s] \<and>
           data (newEvent k d rnd s) = JObj [] \<and>
           blockingGet (Some k) (Some g) s1 = (s2, Return r) \<and>
           newEvent k d rnd s \<in> set r"
proof -
  from assms(1) have f: "\<not> truthy d" by (auto simp: falsy_iff)
  then have dat: "data (newEvent k d rnd s) = JObj []" by (simp add: newEvent_def)
  obtain s1 where p: "push (Some k) d rnd s = Inr s1"
    using assms(2) by (simp add: push_Inr)
  from stored_push [OF assms(2) p, of k]
  have st: "stored s1 k = stored s k @ [newEvent k d rnd s]" by simp
  from p have "consumedBy s1 (groupKey k g) = consumedBy s (groupKey k g)"
    by (simp add: consumedBy_cong [OF push_groupConsumption])
  with assms(4) st have vis: "newEvent k d rnd s \<in> set (getUnconsumed k (groupKey k g) s1)"
    by (simp add: getUnconsumed_eq)
  then have "getUnconsumed k (groupKey k g) s1 \<noteq> []" by auto
  from blockingGet_found [OF assms(2,3) this] obtain s2 where
    b: "blockingGet (Some k) (Some g) s1 = (s2, Return (getUnconsumed k (groupKey k g) s1))"
    by simp
  from p st dat b vis show ?thesis by blast
qed

theorem falsy_data_becomes_empty_object_witness:
  "JNum 0 \<in> {JNull, JUndefined, JNum 0, JStr [], JBool False, JNaN} \<and>
   ''k'' \<noteq> [] \<and> ''g'' \<noteq> [] \<and>
   id_ev (newEvent ''k'' (JNum 0) ''r'' init) \<notin> consumedBy init (groupKey ''k'' ''g'') \<and>
   newEvent ''k'' (JNum 0) ''r'' init = \<lparr>id_ev = ''k-0-r'', data = JObj [], timestamp = 0\<rparr> \<and>
   push (Some ''k'') (JNum 0) ''r'' init =
     Inr (init\<lparr>events := [(''k'', [\<lparr>id_ev = ''k-0-r'', data = JObj [], timestamp = 0\<rparr>])]\<rparr>) \<and>
   (\<exists>s2 r. blockingGet (Some ''k'') (Some ''g'')
              (init\<lparr>events := [(''k'', [\<lparr>id_ev = ''k-0-r'', data = JObj [], timestamp = 0\<rparr>])]\<rparr>)
              = (s2, Return r) \<and>
            \<lparr>id_ev = ''k-0-r'', data = JObj [], timestamp = 0\<rparr> \<in> set r)"
proof -
  let ?e = "\<lparr>id_ev = ''k-0-r'', data = JObj [], timestamp = 0\<rparr>"
  have a: "JNum 0 \<in> {JNull, JUndefined, JNum 0, JStr [], JBool False, JNaN}"
    "''k'' \<noteq> []" "''g'' \<noteq> []" by simp_all
  have n: "newEvent ''k'' (JNum 0) ''r'' init = ?e" by (simp add: eval_defs)
  have c: "id_ev (newEvent ''k'' (JNum 0) ''r'' init) \<notin> consumedBy init (groupKey ''k'' ''g'')"
    by (simp add: consumedBy_def eval_defs)
  have p: "push (Some ''k'') (JNum 0) ''r'' init = Inr (init\<lparr>events := [(''k'', [?e])]\<rparr>)"
    by (simp add: eval_defs)
  from falsy_data_becomes_empty_object [OF a c]
  have "\<exists>s2 r. blockingGet (Some ''k'') (Some ''g'') (init\<lparr>events := [(''k'', [?e])]\<rparr>)
              = (s2, Return r) \<and> ?e \<in> set r"
    unfolding p n by auto
  with a n c p show ?thesis by (intro conjI)
qed

section \<open>Waiters that time out\<close>

text \<open>
  C3 does not hold of the code. A call waits on an empty topic; its timer fires after
  30000 ms and the call returns the empty list; the \<open>resolve\<close> function is still
  registered under the key. A later \<open>push\<close> to the key calls it a second time and
  only then removes it.
\<close>

theorem timed_out_waiter_stays_registered:
  "run [BlockingGet (Some ''k'') (Some ''g''), Tick 30000, Timeout 0, Resume 0] init =
     (init\<lparr> waiters := [(''k'', [0])], clock := 30000, nextPromise := 1, fulfilled := {0},
            resolveLog := [0] \<rparr>,
      [Awaiting 0, Idle, Idle, Returned (Some ''k'') (Some ''g'') []]) \<and>
   registered (init\<lparr> waiters := [(''k'', [0])], clock := 30000, nextPromise := 1,
                     fulfilled := {0}, resolveLog := [0] \<rparr>) ''k'' = [0] \<and>
   resolveLog (fst (step (Push (Some ''k'') JNull ''r'')
                (init\<lparr> waiters := [(''k'', [0])], clock := 30000, nextPromise := 1,
                       fulfilled := {0}, resolveLog := [0] \<rparr>))) = [0, 0]"
proof -
  have 1: "step (BlockingGet (Some ''k'') (Some ''g'')) init =
      (init\<lparr> waiters := [(''k'', [0])], nextPromise := 1, timers := [(0, 30000)],
             suspended := [(0, ''k'', ''g'')] \<rparr>, Awaiting 0)"
    by (simp add: eval_defs)
  have 2: "step (Tick 30000) (init\<lparr> waiters := [(''k'', [0])], nextPromise := 1,
             timers := [(0, 30000)], suspended := [(0, ''k'', ''g'')] \<rparr>) =
      (init\<lparr> waiters := [(''k'', [0])], clock := 30000, nextPromise := 1,
             timers := [(0, 30000)], suspended := [(0, ''k'', ''g'')] \<rparr>, Idle)"
    by (simp add: init_def)
  have 3: "step (Timeout 0) (init\<lparr> waiters := [(''k'', [0])], clock := 30000, nextPromise := 1,
             timers := [(0, 30000)], suspended := [(0, ''k'', ''g'')] \<rparr>) =
      (init\<lparr> waiters := [(''k'', [0])], clock := 30000, nextPromise := 1, fulfilled := {0},
             suspended := [(0, ''k'', ''g'')], resolveLog := [0] \<rparr>, Idle)"
    by (simp add: eval_defs)
  have 4: "step (Resume 0) (init\<lparr> waiters := [(''k'', [0])], clock := 30000, nextPromise := 1,
             fulfilled := {0}, suspended := [(0, ''k'', ''g'')], resolveLog := [0] \<rparr>) =
      (init\<lparr> waiters := [(''k'', [0])], clock := 30000, nextPromise := 1, fulfilled := {0},
             resolveLog := [0] \<rparr>, Returned (Some ''k'') (Some ''g'') [])"
    by (simp add: eval_defs)
  have r: "run [BlockingGet (Some ''k'') (Some ''g''), Tick 30000, Timeout 0, Resume 0] init =
     (init\<lparr> waiters := [(''k'', [0])], clock := 30000, nextPromise := 1, fulfilled := {0},
            resolveLog := [0] \<rparr>,
      [Awaiting 0, Idle, Idle, Returned (Some ''k'') (Some ''g'') []])"
    by (rule run_step [OF 1] run_step [OF 2] run_step [OF 3] run_step [OF 4] run.simps(1))+
  have g: "registered (init\<lparr> waiters := [(''k'', [0])], clock := 30000, nextPromise := 1,
                     fulfilled := {0}, resolveLog := [0] \<rparr>) ''k'' = [0]"
    by (simp add: registered_def eval_defs)
  have p: "resolveLog (fst (step (Push (Some ''k'') JNull ''r'')
                (init\<lparr> waiters := [(''k'', [0])], clock := 30000, nextPromise := 1,
                       fulfilled := {0}, resolveLog := [0] \<rparr>))) = [0, 0]"
    by (simp add: eval_defs)
  from r g p show ?thesis by (intro conjI)
qed

section \<open>The keys of the event store in reachable states\<close>

text \<open>A \<open>Map\<close> holds a key once. The association list that stands for \<open>events\<close> has
  this property in every state the program reaches, which is the hypothesis of the
  statements about the sweep.\<close>

lemma distinct_keys_pruneExpired_spec:
  "distinct (map fst m) \<Longrightarrow> distinct (map fst (pruneExpired_spec now m))"
proof (induction m)
  case Nil
  show ?case by (simp add: pruneExpired_spec_def)
next
  case (Cons kv m)
  obtain k evts where kv: "kv = (k, evts)" by (cases kv)
  from Cons.prems kv have "k \<notin> fst ` set (pruneExpired_spec now m)"
    using keys_pruneExpired_spec [of now m] by auto
  moreover from Cons have "distinct (map fst (pruneExpired_spec now m))" by simp
  moreover have "pruneExpired_spec now ((k, evts) # m) =
      (if filter (\<lambda>e. now - timestamp e < 120000) evts = [] then pruneExpired_spec now m
       else (k, filter (\<lambda>e. now - timestamp e < 120000) evts) # pruneExpired_spec now m)"
    by (simp add: pruneExpired_spec_def)
  ultimately show ?case unfolding kv by simp
qed

lemma events_distinct_cleanup:
  assumes "distinct (map fst (events s))"
  shows "distinct (map fst (events (cleanup s)))"
proof -
  from assms have "distinct (map fst ([] @ events s))" by simp
  from sweep_loop_prefix [OF this]
  have "events (cleanup s) = pruneExpired_spec (clock s) (events s)"
    by (simp add: cleanup_def)
  with assms show ?thesis by (simp add: distinct_keys_pruneExpired_spec)
qed

lemma events_distinct_step:
  assumes "distinct (map fst (events s))"
  shows "distinct (map fst (events (fst (step a s))))"
proof (cases a)
  case (Push key d rnd)
  show ?thesis
  proof (cases "push key d rnd s")
    case (Inl err)
    with Push assms show ?thesis by simp
  next
    case (Inr s')
    then obtain k where k: "key = Some k" "k \<noteq> []"
      by (cases key) (auto simp: push_def split: if_splits)
    with Inr have "events s' = AList.update k (stored s k @ [newEvent k d rnd s]) (events s)"
      by (auto simp: push_Inr map_set_def)
    with assms Push Inr show ?thesis by (simp add: distinct_update)
  qed
next
  case (BlockingGet key groupId)
  obtain s' out where bg: "blockingGet key groupId s = (s', out)" by force
  then have "events s' = events s"
    by (cases rule: blockingGet_cases) (simp_all add: markConsumed_frame register_eq)
  with assms bg BlockingGet show ?thesis by (auto split: outcome.splits)
next
  case (Resume p)
  obtain s' out where r: "resume p s = (s', out)" by force
  then have "events s' = events s"
    by (cases rule: resume_cases) (simp_all add: markConsumed_frame)
  with assms r Resume show ?thesis by (auto split: option.splits)
next
  case (Timeout p)
  with assms show ?thesis by (simp add: timeout_def resolve_def split: option.splits)
next
  case Cleanup
  with assms show ?thesis by (simp add: events_distinct_cleanup)
next
  case (Tick ms)
  with assms show ?thesis by simp
qed

lemma events_distinct_run:
  "distinct (map fst (events s)) \<Longrightarrow> distinct (map fst (events (fst (run as s))))"
proof (induction as arbitrary: s)
  case Nil
  then show ?case by simp
next
  case (Cons a as)
  from Cons.IH [OF events_distinct_step [OF Cons.prems]] show ?case
    by (simp only: fst_run_Cons)
qed

lemma events_distinct_reachable: "distinct (map fst (events (fst (run as init))))"
  by (rule events_distinct_run) (simp add: init_def)

section \<open>Timers of notified waiters\<close>

text \<open>On the notify path the waiter leaves the registry, but its timer is not cleared:
  it fires when due and calls the \<open>resolve\<close> function of the settled promise again.\<close>

lemma notified_waiter_timer_still_fires:
  "run [BlockingGet (Some ''k'') (Some ''g''), Push (Some ''k'') (JNum 1) ''r'', Resume 0,
        Tick 30000, Timeout 0] init =
     (init\<lparr> events := [(''k'', [\<lparr>id_ev = ''k-0-r'', data = JNum 1, timestamp = 0\<rparr>])],
            groupConsumption := [(''k:g'', {''k-0-r''})],
            clock := 30000, nextPromise := 1, fulfilled := {0}, resolveLog := [0, 0] \<rparr>,
      [Awaiting 0, Resolved,
       Returned (Some ''k'') (Some ''g'') [\<lparr>id_ev = ''k-0-r'', data = JNum 1, timestamp = 0\<rparr>],
       Idle, Idle])"
proof -
  let ?e = "\<lparr>id_ev = ''k-0-r'', data = JNum 1, timestamp = 0\<rparr>"
  have 1: "step (BlockingGet (Some ''k'') (Some ''g'')) init =
      (init\<lparr> waiters := [(''k'', [0])], nextPromise := 1, timers := [(0, 30000)],
             suspended := [(0, ''k'', ''g'')] \<rparr>, Awaiting 0)"
    by (simp add: eval_defs)
  have 2: "step (Push (Some ''k'') (JNum 1) ''r'')
             (init\<lparr> waiters := [(''k'', [0])], nextPromise := 1, timers := [(0, 30000)],
                    suspended := [(0, ''k'', ''g'')] \<rparr>) =
      (init\<lparr> events := [(''k'', [?e])], nextPromise := 1, fulfilled := {0},
             timers := [(0, 30000)], suspended := [(0, ''k'', ''g'')], resolveLog := [0] \<rparr>,
       Resolved)"
    by (simp add: eval_defs)
  have 3: "step (Resume 0)
             (init\<lparr> events := [(''k'', [?e])], nextPromise := 1, fulfilled := {0},
                    timers := [(0, 30000)], suspended := [(0, ''k'', ''g'')],
                    resolveLog := [0] \<rparr>) =
      (init\<lparr> events := [(''k'', [?e])], groupConsumption := [(''k:g'', {''k-0-r''})],
             nextPromise := 1, fulfilled := {0}, timers := [(0, 30000)], resolveLog := [0] \<rparr>,
       Returned (Some ''k'') (Some ''g'') [?e])"
    by (simp add: eval_defs)
  have 4: "step (Tick 30000)
             (init\<lparr> events := [(''k'', [?e])], groupConsumption := [(''k:g'', {''k-0-r''})],
                    nextPromise := 1, fulfilled := {0}, timers := [(0, 30000)],
                    resolveLog := [0] \<rparr>) =
      (init\<lparr> events := [(''k'', [?e])], groupConsumption := [(''k:g'', {''k-0-r''})],
             clock := 30000, nextPromise := 1, fulfilled := {0}, timers := [(0, 30000)],
             resolveLog := [0] \<rparr>, Idle)"
    by (simp add: init_def)
  have 5: "step (Timeout 0)
             (init\<lparr> events := [(''k'', [?e])], groupConsumption := [(''k:g'', {''k-0-r''})],
                    clock := 30000, nextPromise := 1, fulfilled := {0}, timers := [(0, 30000)],
                    resolveLog := [0] \<rparr>) =
      (init\<lparr> events := [(''k'', [?e])], groupConsumption := [(''k:g'', {''k-0-r''})],
             clock := 30000, nextPromise := 1, fulfilled := {0}, resolveLog := [0, 0] \<rparr>, Idle)"
    by (simp add: eval_defs)
  show ?thesis
    by (rule run_step [OF 1] run_step [OF 2] run_step [OF 3] run_step [OF 4] run_step [OF 5]
        run.simps(1))+
qed

end
